theory Spec2Isabelle
  imports Complex_Main "HOL-Library.Multiset"
begin

section \<open>Values, result objects and errors\<close>

text \<open>
  The exceptions a call of \<open>DiceParser.parse\<close> can end with. \<open>SyntaxError\<close> stands for
  every rejection by the lexer or the LALR parser, \<open>KeyError\<close> for the failed dictionary
  lookup of \<open>DiceTransformer.var\<close>, \<open>ZeroDivisionError\<close> for \<open>operator.floordiv\<close>,
  \<open>ValueError\<close> for a conversion between \<open>int\<close> and \<open>str\<close> beyond the length limit of
  the interpreter, \<open>TypeError\<close> for an arithmetic operator applied to a modifier object
  and \<open>AssertionError\<close> for the \<open>assert isinstance\<close> lines. \<open>OutOfFuel\<close> is not a
  behaviour of the program: it is the value of the parser functions below when their
  recursion bound is used up.
\<close>

datatype error =
  SyntaxError | KeyError string | ZeroDivisionError | ValueError | TypeError | AssertionError
  | OutOfFuel

text \<open>The three classes of \<open>DiceModifier\<close>, each holding its keep count.\<close>

datatype DiceModifier =
  NullDiceModifier | HighestDiceModifier int | LowestDiceModifier int

text \<open>The field \<open>value\<close> of a result object: \<open>int | DiceModifier\<close>.\<close>

datatype pyvalue = IntV int | ModV DiceModifier

text \<open>
  \<open>_ParseResult\<close> (\<open>InternalParseResult\<close> in the sibling module): the fields
  \<open>value\<close>, \<open>string\<close> and \<open>flag\<close>.
\<close>

record InternalParseResult =
  r_value :: pyvalue
  r_string :: "string option"
  r_flag :: "string option"

text \<open>The public \<open>ParseResult\<close> dataclass: \<open>value\<close> and \<open>string\<close>.\<close>

record ParseResult =
  pr_value :: int
  pr_string :: string

text \<open>
  The state of one \<open>DiceParser\<close>: the objects its transformer has created (an object's
  address is its index in \<open>heap\<close>), the dictionary \<open>self.vars\<close> of the one
  \<open>DiceTransformer\<close> built in \<open>DiceParser.__init__\<close> (names to addresses), and the
  random source read by the dice roller: \<open>entropy\<close> is the sequence of raw random
  numbers and \<open>drawn\<close> counts how many of them have been used.
\<close>

record state =
  heap :: "InternalParseResult list"
  vars :: "string \<Rightarrow> nat option"
  entropy :: "nat \<Rightarrow> nat"
  drawn :: nat

definition obj :: "state \<Rightarrow> nat \<Rightarrow> InternalParseResult" where
  "obj st a = heap st ! a"

text \<open>A constructor call \<open>_ParseResult(value, string, flag)\<close>: a new object.\<close>

definition alloc :: "state \<Rightarrow> pyvalue \<Rightarrow> string option \<Rightarrow> string option \<Rightarrow> nat \<times> state" where
  "alloc st v s fl =
     (length (heap st),
      st\<lparr>heap := heap st @ [\<lparr>r_value = v, r_string = s, r_flag = fl\<rparr>]\<rparr>)"

text \<open>\<open>DiceTransformer.__init__\<close>, with the random source the process starts from.\<close>

definition init_state :: "(nat \<Rightarrow> nat) \<Rightarrow> state" where
  "init_state rnd = \<lparr>heap = [], vars = (\<lambda>n. None), entropy = rnd, drawn = 0\<rparr>"

section \<open>Strings and numbers\<close>

definition is_digit :: "char \<Rightarrow> bool" where
  "is_digit c = (48 \<le> (of_char c :: nat) \<and> (of_char c :: nat) \<le> 57)"

definition is_name_char :: "char \<Rightarrow> bool" where
  "is_name_char c = ((97 \<le> (of_char c :: nat) \<and> (of_char c :: nat) \<le> 122) \<or> c = CHR ''_'')"

definition is_ws :: "char \<Rightarrow> bool" where
  "is_ws c = (c = CHR '' '' \<or> (of_char c :: nat) = 9)"

definition digit_val :: "char \<Rightarrow> nat" where
  "digit_val c = of_char c - 48"

definition digit_char :: "nat \<Rightarrow> char" where
  "digit_char n = ''0123456789'' ! n"

text \<open>The number a string of decimal digits denotes.\<close>

definition int_of_digits :: "string \<Rightarrow> nat" where
  "int_of_digits ds = foldl (\<lambda>acc c. 10 * acc + digit_val c) 0 ds"

text \<open>
  The decimal text of an integer: decimal digits, no leading zero, a minus sign if
  negative.
\<close>

fun str_nat :: "nat \<Rightarrow> string" where
  "str_nat n = (if n < 10 then [digit_char n] else str_nat (n div 10) @ [digit_char (n mod 10)])"

declare str_nat.simps [simp del]

definition str_int :: "int \<Rightarrow> string" where
  "str_int i = (if i < 0 then CHR ''-'' # str_nat (nat (- i)) else str_nat (nat i))"

text \<open>
  The built-in conversions \<open>int(s)\<close> and \<open>str(i)\<close>. CPython limits their length: with
  the default \<open>sys.get_int_max_str_digits()\<close> of 4300, \<open>int\<close> raises \<open>ValueError\<close> on a
  decimal string of more than 4300 digits, and \<open>str\<close> raises it on an integer whose
  decimal text has more than 4300 digits. \<open>printable i\<close>: the text of \<open>i\<close> is within the
  limit. \<open>py_int\<close> is applied to tokens matched by \<open>\d+\<close> only. \<open>str_each\<close> is the
  generator \<open>str(d) for d in rolled_dice\<close>, consumed to its end.
\<close>

definition max_str_digits :: nat where
  "max_str_digits = 4300"

definition printable :: "int \<Rightarrow> bool" where
  "printable i = (length (str_nat (nat \<bar>i\<bar>)) \<le> max_str_digits)"

definition py_int :: "string \<Rightarrow> error + int" where
  "py_int s =
     (if max_str_digits < length s then Inl ValueError else Inr (int (int_of_digits s)))"

definition py_str :: "int \<Rightarrow> error + string" where
  "py_str i = (if printable i then Inr (str_int i) else Inl ValueError)"

fun str_each :: "int list \<Rightarrow> error + string list" where
  "str_each [] = Inr []"
| "str_each (d # ds) =
     (case py_str d of
        Inl e \<Rightarrow> Inl e
      | Inr s \<Rightarrow> (case str_each ds of Inl e \<Rightarrow> Inl e | Inr ss \<Rightarrow> Inr (s # ss)))"

text \<open>
  What \<open>str.format\<close> puts in place of \<open>{}\<close> for the field \<open>string\<close>: the string, or the
  text \<open>None\<close>.
\<close>

definition fmt :: "string option \<Rightarrow> string" where
  "fmt s = (case s of None \<Rightarrow> ''None'' | Some t \<Rightarrow> t)"

fun join :: "string \<Rightarrow> string list \<Rightarrow> string" where
  "join sep [] = []"
| "join sep [x] = x"
| "join sep (x # y # ys) = x @ sep @ join sep (y # ys)"

section \<open>Keep modifiers\<close>

text \<open>
  Modelled from the spec: \<open>DiceModifier._safe_count\<close> is in \<open>dice_parser/modifier.py\<close>,
  which is not among the sources. The spec: the keep count is clamped to
  \<open>[0, len(outcomes)]\<close> before use.
\<close>

definition safe_count :: "int \<Rightarrow> int list \<Rightarrow> int" where
  "safe_count n dice = max 0 (min n (int (length dice)))"

text \<open>
  \<open>get_actual_dice\<close> of the three classes: the kept and the dropped dice. The slices
  \<open>sorted_dice[n - count:]\<close> and \<open>sorted_dice[:n - count]\<close> are read with Python's rule for
  a negative bound (it counts from the end, and the bound is then clipped to the list).
\<close>

definition slice_bound :: "int \<Rightarrow> nat \<Rightarrow> nat" where
  "slice_bound i n = (if i < 0 then nat (int n + i) else min (nat i) n)"

fun get_actual_dice :: "DiceModifier \<Rightarrow> int list \<Rightarrow> int list \<times> int list" where
  "get_actual_dice NullDiceModifier dice = (dice, [])"
| "get_actual_dice (HighestDiceModifier k) dice =
     (let sorted_dice = sort dice;
          cnt = safe_count k dice;
          n = int (length sorted_dice)
      in (drop (slice_bound (n - cnt) (length sorted_dice)) sorted_dice,
          take (slice_bound (n - cnt) (length sorted_dice)) sorted_dice))"
| "get_actual_dice (LowestDiceModifier k) dice =
     (let sorted_dice = sort dice;
          cnt = safe_count k dice
      in (take (slice_bound cnt (length sorted_dice)) sorted_dice,
          drop (slice_bound cnt (length sorted_dice)) sorted_dice))"

section \<open>The dice roller\<close>

text \<open>
  Modelled from the spec: \<open>DiceRoller\<close> is in \<open>dice_parser/dice_roller.py\<close>, which is not
  among the sources. The spec (4.3): \<open>roll(count, size, modifier)\<close> generates \<open>count\<close>
  random integers, each drawn from \<open>[1, size]\<close> if \<open>size \<ge> 1\<close>; if \<open>size\<close> is 0 every
  outcome is 0 and no randomness is consumed; the modifier selects the kept outcomes, the
  total is their sum, and the outcomes are returned whole, in generation order. The
  \<open>i\<close>-th draw reduces the next raw random number into \<open>[1, size]\<close>. The spec leaves a
  negative count open; here it rolls no dice.
\<close>

definition draw :: "state \<Rightarrow> int \<Rightarrow> nat \<Rightarrow> int" where
  "draw st sz i = 1 + int (entropy st (drawn st + i) mod nat sz)"

definition DiceRoller_roll ::
  "state \<Rightarrow> int \<Rightarrow> int \<Rightarrow> DiceModifier \<Rightarrow> (int \<times> int list) \<times> state" where
  "DiceRoller_roll st cnt sz modifier =
     (let n = nat cnt;
          dice = (if 1 \<le> sz then map (draw st sz) [0..<n] else replicate n 0);
          st' = (if 1 \<le> sz then st\<lparr>drawn := drawn st + n\<rparr> else st)
      in ((sum_list (fst (get_actual_dice modifier dice)), dice), st'))"

section \<open>The semantic actions of \<open>DiceTransformer\<close>\<close>

text \<open>
  Each action takes the state and the addresses of its child objects and returns the
  address of its result with the new state, or the exception it raises.
  \<open>_ParseResult.operator(operator_callable, template)\<close> applies the callable to the
  children's values and fills the template with the children's strings; \<open>binary\<close> is the
  function it returns for a two-place callable, \<open>unary\<close> for a one-place one.
\<close>

definition binary ::
  "(int \<Rightarrow> int \<Rightarrow> error + int) \<Rightarrow> (string \<Rightarrow> string \<Rightarrow> string) \<Rightarrow>
   state \<Rightarrow> nat \<Rightarrow> nat \<Rightarrow> error + (nat \<times> state)" where
  "binary operator_callable template st a b =
     (case (r_value (obj st a), r_value (obj st b)) of
        (IntV x, IntV y) \<Rightarrow>
          (case operator_callable x y of
             Inl e \<Rightarrow> Inl e
           | Inr v \<Rightarrow>
               Inr (alloc st (IntV v)
                      (Some (template (fmt (r_string (obj st a))) (fmt (r_string (obj st b)))))
                      None))
      | _ \<Rightarrow> Inl TypeError)"

definition unary ::
  "(int \<Rightarrow> int) \<Rightarrow> (string \<Rightarrow> string) \<Rightarrow> state \<Rightarrow> nat \<Rightarrow> error + (nat \<times> state)" where
  "unary operator_callable template st a =
     (case r_value (obj st a) of
        IntV x \<Rightarrow>
          Inr (alloc st (IntV (operator_callable x))
                 (Some (template (fmt (r_string (obj st a))))) None)
      | _ \<Rightarrow> Inl TypeError)"

text \<open>\<open>operator.floordiv\<close> on Python integers: floor division, an exception on zero.\<close>

definition floordiv :: "int \<Rightarrow> int \<Rightarrow> error + int" where
  "floordiv x y = (if y = 0 then Inl ZeroDivisionError else Inr (x div y))"

definition add :: "state \<Rightarrow> nat \<Rightarrow> nat \<Rightarrow> error + (nat \<times> state)" where
  "add = binary (\<lambda>x y. Inr (x + y)) (\<lambda>s t. s @ '' + '' @ t)"

definition sub :: "state \<Rightarrow> nat \<Rightarrow> nat \<Rightarrow> error + (nat \<times> state)" where
  "sub = binary (\<lambda>x y. Inr (x - y)) (\<lambda>s t. s @ '' - '' @ t)"

definition mul :: "state \<Rightarrow> nat \<Rightarrow> nat \<Rightarrow> error + (nat \<times> state)" where
  "mul = binary (\<lambda>x y. Inr (x * y)) (\<lambda>s t. s @ '' * '' @ t)"

definition div_action :: "state \<Rightarrow> nat \<Rightarrow> nat \<Rightarrow> error + (nat \<times> state)" where
  "div_action = binary floordiv (\<lambda>s t. s @ '' / '' @ t)"

definition neg :: "state \<Rightarrow> nat \<Rightarrow> error + (nat \<times> state)" where
  "neg = unary (\<lambda>x. - x) (\<lambda>s. ''-'' @ s)"

text \<open>\<open>number\<close>: \<open>_ParseResult(int(value), str(int(value)), None)\<close>.\<close>

definition number :: "state \<Rightarrow> string \<Rightarrow> error + (nat \<times> state)" where
  "number st lexeme =
     (case py_int lexeme of
        Inl e \<Rightarrow> Inl e
      | Inr v \<Rightarrow>
          (case py_str v of
             Inl e \<Rightarrow> Inl e
           | Inr s \<Rightarrow> Inr (alloc st (IntV v) (Some s) None)))"

definition add_flag :: "state \<Rightarrow> nat \<Rightarrow> string \<Rightarrow> nat \<times> state" where
  "add_flag st a fl = alloc st (r_value (obj st a)) (r_string (obj st a)) (Some fl)"

definition dice_count :: "state \<Rightarrow> nat \<Rightarrow> error + (nat \<times> state)" where
  "dice_count st a = Inr (add_flag st a ''dice_count'')"

text \<open>
  \<open>dice_size\<close> assigns to the field \<open>value\<close> of the object it was given, and only then
  copies that object into the flagged one.
\<close>

definition dice_size :: "state \<Rightarrow> nat \<Rightarrow> error + (nat \<times> state)" where
  "dice_size st a =
     (case r_value (obj st a) of
        IntV x \<Rightarrow>
          (let st1 = (if x < 1
                      then st\<lparr>heap := (heap st)[a := (obj st a)\<lparr>r_value := IntV 0\<rparr>]\<rparr>
                      else st)
           in Inr (add_flag st1 a ''dice_size''))
      | _ \<Rightarrow> Inl AssertionError)"

definition dice_highest :: "state \<Rightarrow> nat \<Rightarrow> error + (nat \<times> state)" where
  "dice_highest st a =
     (case r_value (obj st a) of
        IntV x \<Rightarrow> Inr (alloc st (ModV (HighestDiceModifier x)) None (Some ''dice_modifier''))
      | _ \<Rightarrow> Inl AssertionError)"

definition dice_lowest :: "state \<Rightarrow> nat \<Rightarrow> error + (nat \<times> state)" where
  "dice_lowest st a =
     (case r_value (obj st a) of
        IntV x \<Rightarrow> Inr (alloc st (ModV (LowestDiceModifier x)) None (Some ''dice_modifier''))
      | _ \<Rightarrow> Inl AssertionError)"

definition brackets :: "state \<Rightarrow> nat \<Rightarrow> error + (nat \<times> state)" where
  "brackets st a =
     Inr (alloc st (r_value (obj st a)) (Some (''('' @ fmt (r_string (obj st a)) @ '')'')) None)"

text \<open>
  The loop of \<open>roll\<close> over its arguments: three independent \<open>if\<close>s on the flag, each with
  its assertion on the value. \<open>roll\<close> then rolls the dice and joins their texts.
\<close>

fun roll_scan ::
  "state \<Rightarrow> nat list \<Rightarrow> int \<times> int \<times> DiceModifier \<Rightarrow> error + (int \<times> int \<times> DiceModifier)" where
  "roll_scan st [] acc = Inr acc"
| "roll_scan st (a # as) (cnt, sz, modifier) =
     (case (if r_flag (obj st a) = Some ''dice_count''
            then (case r_value (obj st a) of IntV x \<Rightarrow> Inr x | _ \<Rightarrow> Inl AssertionError)
            else Inr cnt) of
        Inl e \<Rightarrow> Inl e
      | Inr cnt' \<Rightarrow>
          (case (if r_flag (obj st a) = Some ''dice_size''
                 then (case r_value (obj st a) of IntV x \<Rightarrow> Inr x | _ \<Rightarrow> Inl AssertionError)
                 else Inr sz) of
             Inl e \<Rightarrow> Inl e
           | Inr sz' \<Rightarrow>
               (case (if r_flag (obj st a) = Some ''dice_modifier''
                      then (case r_value (obj st a) of ModV m \<Rightarrow> Inr m | _ \<Rightarrow> Inl AssertionError)
                      else Inr modifier) of
                  Inl e \<Rightarrow> Inl e
                | Inr modifier' \<Rightarrow> roll_scan st as (cnt', sz', modifier'))))"

definition roll :: "state \<Rightarrow> nat list \<Rightarrow> error + (nat \<times> state)" where
  "roll st args =
     (case roll_scan st args (1, 20, NullDiceModifier) of
        Inl e \<Rightarrow> Inl e
      | Inr (cnt, sz, modifier) \<Rightarrow>
          (case DiceRoller_roll st cnt sz modifier of
             ((rolled_result, rolled_dice), st1) \<Rightarrow>
               (case str_each rolled_dice of
                  Inl e \<Rightarrow> Inl e
                | Inr strs \<Rightarrow>
                    Inr (alloc st1 (IntV rolled_result)
                           (Some (''['' @ join '', '' strs @ '']'')) None))))"

text \<open>
  \<open>assign_var\<close> stores a new object (the child's value, the name as string) under the
  name and returns another new object; \<open>var\<close> returns the stored object itself.
\<close>

definition assign_var :: "state \<Rightarrow> string \<Rightarrow> nat \<Rightarrow> error + (nat \<times> state)" where
  "assign_var st name a =
     (case alloc st (r_value (obj st a)) (Some name) None of
        (b, st1) \<Rightarrow>
          Inr (alloc (st1\<lparr>vars := (vars st1)(name := Some b)\<rparr>)
                 (r_value (obj st a)) (Some (name @ '' = '' @ fmt (r_string (obj st a)))) None))"

definition var :: "state \<Rightarrow> string \<Rightarrow> error + (nat \<times> state)" where
  "var st name = (case vars st name of None \<Rightarrow> Inl (KeyError name) | Some a \<Rightarrow> Inr (a, st))"

text \<open>\<open>to_public_result\<close>, with its two assertions.\<close>

definition to_public_result :: "InternalParseResult \<Rightarrow> error + ParseResult" where
  "to_public_result r =
     (case r_value r of
        IntV x \<Rightarrow>
          (case r_string r of
             Some s \<Rightarrow> Inr \<lparr>pr_value = x, pr_string = s\<rparr>
           | None \<Rightarrow> Inl AssertionError)
      | _ \<Rightarrow> Inl AssertionError)"

section \<open>The lexer\<close>

text \<open>
  The terminals of \<open>GRAMMAR\<close>: \<open>NAME\<close>, \<open>NUMBER\<close>, the anonymous literals and the end of
  input. The grammar uses the lower-case and the upper-case letter of \<open>d\<close>, \<open>h\<close> and \<open>l\<close>
  alike, so each pair is one terminal here. A token is a terminal with the text it
  matched.
\<close>

datatype terminal =
  NAME | NUMBER | EQUAL | PLUS | MINUS | STAR | SLASH | LPAR | RPAR | KW_D | KW_H | KW_L | END

type_synonym token = "terminal \<times> string"

definition literal :: "char \<Rightarrow> terminal option" where
  "literal c =
     (if c = CHR ''='' then Some EQUAL
      else if c = CHR ''+'' then Some PLUS
      else if c = CHR ''-'' then Some MINUS
      else if c = CHR ''*'' then Some STAR
      else if c = CHR ''/'' then Some SLASH
      else if c = CHR ''('' then Some LPAR
      else if c = CHR '')'' then Some RPAR
      else if c = CHR ''d'' \<or> c = CHR ''D'' then Some KW_D
      else if c = CHR ''h'' \<or> c = CHR ''H'' then Some KW_H
      else if c = CHR ''l'' \<or> c = CHR ''L'' then Some KW_L
      else None)"

text \<open>
  The parser is built with \<open>parser='lalr'\<close>, whose lexer is contextual: in each parser
  state it matches only the terminals that state accepts (the list \<open>acc\<close>), after
  skipping \<open>WS_INLINE\<close>. Where \<open>NAME\<close> is accepted it takes the longest run of
  \<open>[a-z_]\<close>, and the run is retyped as a letter literal when it is exactly that letter and
  the state accepts the literal; where \<open>NAME\<close> is not accepted a letter literal matches
  its one character.
\<close>

definition keyword :: "terminal list \<Rightarrow> string \<Rightarrow> terminal" where
  "keyword acc w =
     (if w = ''d'' \<and> KW_D \<in> set acc then KW_D
      else if w = ''h'' \<and> KW_H \<in> set acc then KW_H
      else if w = ''l'' \<and> KW_L \<in> set acc then KW_L
      else NAME)"

definition next_token :: "terminal list \<Rightarrow> string \<Rightarrow> error + (token \<times> string)" where
  "next_token acc s =
     (case dropWhile is_ws s of
        [] \<Rightarrow> if END \<in> set acc then Inr ((END, []), []) else Inl SyntaxError
      | c # cs \<Rightarrow>
          if is_digit c then
            (if NUMBER \<in> set acc
             then Inr ((NUMBER, takeWhile is_digit (c # cs)), dropWhile is_digit (c # cs))
             else Inl SyntaxError)
          else if is_name_char c \<and> NAME \<in> set acc then
            Inr ((keyword acc (takeWhile is_name_char (c # cs)), takeWhile is_name_char (c # cs)),
                 dropWhile is_name_char (c # cs))
          else
            (case literal c of
               None \<Rightarrow> Inl SyntaxError
             | Some t \<Rightarrow> if t \<in> set acc then Inr ((t, [c]), cs) else Inl SyntaxError))"

text \<open>
  The terminals accepted by the LALR(1) states of \<open>GRAMMAR\<close> in which a token is read:
  at the start of an atom, at the start of a dice term, after the first \<open>NAME\<close> of the
  input, after the last terminal of any other atom, and after the letter \<open>d\<close>.
  \<open>follow_dice\<close> is the lookahead on which a complete dice term is reduced.
\<close>

definition first_atom :: "terminal list" where
  "first_atom = [NUMBER, MINUS, NAME, LPAR]"

definition first_dice :: "terminal list" where
  "first_dice = [NUMBER, MINUS, NAME, LPAR, KW_D]"

definition follow_dice :: "terminal list" where
  "follow_dice = [STAR, SLASH, PLUS, MINUS, RPAR, END]"

definition after_first_name :: "terminal list" where
  "after_first_name = [EQUAL, KW_D, STAR, SLASH, PLUS, MINUS, END]"

definition after_atom :: "terminal list" where
  "after_atom = [KW_D, KW_H, KW_L, STAR, SLASH, PLUS, MINUS, RPAR, END]"

definition after_d :: "terminal list" where
  "after_d = [NUMBER, MINUS, NAME, LPAR, KW_H, KW_L, STAR, SLASH, PLUS, RPAR, END]"

section \<open>The parser\<close>

text \<open>
  \<open>Lark(GRAMMAR, parser='lalr', transformer=DiceTransformer())\<close> runs each semantic
  action when its production is reduced. The functions below follow the productions of
  \<open>GRAMMAR\<close>, one per nonterminal, with the left-recursive \<open>sum\<close> and \<open>product\<close> as loops;
  each takes the lookahead token with the unread input and returns the address of its
  result, the next lookahead with the unread input, and the state. A token is read right
  after the one before it is shifted, and an action runs only when the lookahead allows
  the reduction, as in the LALR tables; a shift/reduce conflict (a \<open>-\<close> after \<open>d\<close>) is a
  shift. The first argument bounds the depth of the recursion.
\<close>

type_synonym input = "token \<times> string"

type_synonym parser = "state \<Rightarrow> input \<Rightarrow> error + (nat \<times> input \<times> state)"

definition and_then :: "error + 'a \<Rightarrow> ('a \<Rightarrow> error + 'b) \<Rightarrow> error + 'b" where
  "and_then r k = (case r of Inl e \<Rightarrow> Inl e | Inr x \<Rightarrow> k x)"

text \<open>
  The productions from \<open>dice_modifier\<close> up to \<open>sum\<close> reach \<open>atom\<close>, and \<open>atom\<close> reaches
  \<open>sum\<close> again inside brackets: they take the parser of \<open>atom\<close> as their argument
  \<open>atom\<close>, and \<open>p_atom\<close> closes the recursion.
\<close>

definition p_modifier :: "parser \<Rightarrow> state \<Rightarrow> nat list \<Rightarrow> input \<Rightarrow> error + (nat \<times> input \<times> state)" where
  "p_modifier atom st args inp =
     (case inp of ((t, lexeme), rest) \<Rightarrow>
      if t = KW_H \<or> t = KW_L then
        and_then (next_token first_atom rest) (\<lambda>inp1.
        and_then (atom st inp1) (\<lambda>(a, ((t1, lexeme1), rest1), st1).
        if t1 \<in> set follow_dice then
          and_then ((if t = KW_H then dice_highest else dice_lowest) st1 a) (\<lambda>(m, st2).
          and_then (roll st2 (args @ [m])) (\<lambda>(r, st3). Inr (r, ((t1, lexeme1), rest1), st3)))
        else Inl SyntaxError))
      else
        and_then (roll st args) (\<lambda>(r, st1). Inr (r, inp, st1)))"

definition p_roll :: "parser \<Rightarrow> state \<Rightarrow> nat list \<Rightarrow> input \<Rightarrow> error + (nat \<times> input \<times> state)" where
  "p_roll atom st args inp =
     (case inp of ((t, lexeme), rest) \<Rightarrow>
      if t \<in> set first_atom then
        and_then (atom st inp) (\<lambda>(a, ((t1, lexeme1), rest1), st1).
        if t1 = KW_D then Inl SyntaxError
        else
          and_then (dice_size st1 a) (\<lambda>(s, st2).
          p_modifier atom st2 (args @ [s]) ((t1, lexeme1), rest1)))
      else p_modifier atom st args inp)"

definition p_dice_tail :: "parser \<Rightarrow> state \<Rightarrow> nat \<Rightarrow> input \<Rightarrow> error + (nat \<times> input \<times> state)" where
  "p_dice_tail atom st a inp =
     (case inp of ((t, lexeme), rest) \<Rightarrow>
      if t = KW_D then
        and_then (dice_count st a) (\<lambda>(c, st1).
        and_then (next_token after_d rest) (\<lambda>inp1.
        p_roll atom st1 [c] inp1))
      else if t \<in> set follow_dice then Inr (a, inp, st)
      else Inl SyntaxError)"

definition p_dice :: "parser \<Rightarrow> parser" where
  "p_dice atom st inp =
     (case inp of ((t, lexeme), rest) \<Rightarrow>
      if t = KW_D then
        and_then (next_token after_d rest) (\<lambda>inp1. p_roll atom st [] inp1)
      else
        and_then (atom st inp) (\<lambda>(a, inp1, st1). p_dice_tail atom st1 a inp1))"

fun p_product_loop :: "parser \<Rightarrow> nat \<Rightarrow> state \<Rightarrow> nat \<Rightarrow> input \<Rightarrow> error + (nat \<times> input \<times> state)" where
  "p_product_loop atom 0 st a inp = Inl OutOfFuel"
| "p_product_loop atom (Suc f) st a inp =
     (case inp of ((t, lexeme), rest) \<Rightarrow>
      if t = STAR \<or> t = SLASH then
        and_then (next_token first_dice rest) (\<lambda>inp1.
        and_then (p_dice atom st inp1) (\<lambda>(b, inp2, st1).
        and_then ((if t = STAR then mul else div_action) st1 a b) (\<lambda>(c, st2).
        p_product_loop atom f st2 c inp2)))
      else Inr (a, inp, st))"

definition p_product :: "parser \<Rightarrow> nat \<Rightarrow> parser" where
  "p_product atom f st inp =
     and_then (p_dice atom st inp) (\<lambda>(a, inp1, st1). p_product_loop atom f st1 a inp1)"

fun p_sum_loop :: "parser \<Rightarrow> nat \<Rightarrow> state \<Rightarrow> nat \<Rightarrow> input \<Rightarrow> error + (nat \<times> input \<times> state)" where
  "p_sum_loop atom 0 st a inp = Inl OutOfFuel"
| "p_sum_loop atom (Suc f) st a inp =
     (case inp of ((t, lexeme), rest) \<Rightarrow>
      if t = PLUS \<or> t = MINUS then
        and_then (next_token first_dice rest) (\<lambda>inp1.
        and_then (p_product atom f st inp1) (\<lambda>(b, inp2, st1).
        and_then ((if t = PLUS then add else sub) st1 a b) (\<lambda>(c, st2).
        p_sum_loop atom f st2 c inp2)))
      else Inr (a, inp, st))"

definition p_sum :: "parser \<Rightarrow> nat \<Rightarrow> parser" where
  "p_sum atom f st inp =
     and_then (p_product atom f st inp) (\<lambda>(a, inp1, st1). p_sum_loop atom f st1 a inp1)"

primrec p_atom :: "nat \<Rightarrow> parser" where
  "p_atom 0 = (\<lambda>st inp. Inl OutOfFuel)"
| "p_atom (Suc f) = (\<lambda>st inp.
     (case inp of ((t, lexeme), rest) \<Rightarrow>
      if t = NUMBER then
        and_then (next_token after_atom rest) (\<lambda>inp1.
        and_then (number st lexeme) (\<lambda>(a, st1). Inr (a, inp1, st1)))
      else if t = NAME then
        and_then (next_token after_atom rest) (\<lambda>inp1.
        and_then (var st lexeme) (\<lambda>(a, st1). Inr (a, inp1, st1)))
      else if t = MINUS then
        and_then (next_token first_atom rest) (\<lambda>inp1.
        and_then (p_atom f st inp1) (\<lambda>(a, inp2, st1).
        and_then (neg st1 a) (\<lambda>(b, st2). Inr (b, inp2, st2))))
      else if t = LPAR then
        and_then (next_token first_dice rest) (\<lambda>inp1.
        and_then (p_sum (p_atom f) f st inp1) (\<lambda>(a, ((t1, lexeme1), rest1), st1).
        if t1 = RPAR then
          and_then (next_token after_atom rest1) (\<lambda>inp2.
          and_then (brackets st1 a) (\<lambda>(b, st2). Inr (b, inp2, st2)))
        else Inl SyntaxError))
      else Inl SyntaxError))"

text \<open>
  The start symbol: \<open>NAME "=" sum\<close> is an assignment; any other input is a \<open>sum\<close>, and
  one that begins with a \<open>NAME\<close> continues from the variable reference already read. The
  input must end where the \<open>sum\<close> ends.
\<close>

definition p_start :: "nat \<Rightarrow> state \<Rightarrow> string \<Rightarrow> error + (nat \<times> state)" where
  "p_start f st s =
     and_then (next_token first_dice s) (\<lambda>((t, lexeme), rest).
     if t = NAME then
       and_then (next_token after_first_name rest) (\<lambda>((t2, lexeme2), rest2).
       if t2 = EQUAL then
         and_then (next_token first_dice rest2) (\<lambda>inp.
         and_then (p_sum (p_atom f) f st inp) (\<lambda>(a, ((t3, lexeme3), rest3), st1).
         if t3 = END then assign_var st1 lexeme a else Inl SyntaxError))
       else
         and_then (var st lexeme) (\<lambda>(a, st1).
         and_then (p_dice_tail (p_atom f) st1 a ((t2, lexeme2), rest2)) (\<lambda>(b, inp1, st2).
         and_then (p_product_loop (p_atom f) f st2 b inp1) (\<lambda>(c, inp2, st3).
         and_then (p_sum_loop (p_atom f) f st3 c inp2) (\<lambda>(d, ((t3, lexeme3), rest3), st4).
         if t3 = END then Inr (d, st4) else Inl SyntaxError)))))
     else
       and_then (p_sum (p_atom f) f st ((t, lexeme), rest)) (\<lambda>(a, ((t3, lexeme3), rest3), st1).
       if t3 = END then Inr (a, st1) else Inl SyntaxError))"

text \<open>
  \<open>DiceParser.parse\<close>: the parse with its actions, then \<open>to_public_result\<close>. The
  recursion bound grows with the input, and no input uses it up
  (\<open>parse_never_out_of_fuel\<close> below).
\<close>

definition fuel :: "string \<Rightarrow> nat" where
  "fuel s = Suc (length s)"

definition parse :: "state \<Rightarrow> string \<Rightarrow> error + (ParseResult \<times> state)" where
  "parse st s =
     and_then (p_start (fuel s) st s) (\<lambda>(a, st1).
     and_then (to_public_result (obj st1 a)) (\<lambda>r. Inr (r, st1)))"

section \<open>The caller's view\<close>

text \<open>
  A \<open>DiceParser()\<close> just constructed: no object yet, an empty \<open>vars\<close>. \<open>value_of\<close> is
  what a call of \<open>parse\<close> hands to its caller, and \<open>then_parse\<close> is the next call of
  \<open>parse\<close> on the same \<open>DiceParser\<close>, made after a call that returned.
\<close>

definition new_parser :: state where
  "new_parser = init_state (\<lambda>i. 0)"

definition value_of :: "error + (ParseResult \<times> state) \<Rightarrow> error + ParseResult" where
  "value_of r = map_sum id fst r"

definition then_parse ::
  "error + (ParseResult \<times> state) \<Rightarrow> string \<Rightarrow> error + (ParseResult \<times> state)" where
  "then_parse r s = and_then r (\<lambda>(res, st). parse st s)"

section \<open>Notions used in the statements\<close>

text \<open>
  A string matched by \<open>\d+\<close>; a string that does not begin with a digit, so that a
  number before it ends where it begins.
\<close>

definition digits :: "string \<Rightarrow> bool" where
  "digits ds = (ds \<noteq> [] \<and> (\<forall>c\<in>set ds. is_digit c))"

definition starts_digit :: "string \<Rightarrow> bool" where
  "starts_digit s = (case s of [] \<Rightarrow> False | c # cs \<Rightarrow> is_digit c)"

text \<open>
  The spec's words for the keep modifiers: the \<open>c\<close> largest and the \<open>c\<close> smallest of a
  list of outcomes.
\<close>

definition largest :: "nat \<Rightarrow> int list \<Rightarrow> int list" where
  "largest c xs = take c (rev (sort xs))"

definition smallest :: "nat \<Rightarrow> int list \<Rightarrow> int list" where
  "smallest c xs = take c (sort xs)"

text \<open>The outcomes of rolling \<open>n\<close> dice of \<open>sz\<close> faces in state \<open>st\<close>.\<close>

definition outcomes :: "state \<Rightarrow> nat \<Rightarrow> int \<Rightarrow> int list" where
  "outcomes st n sz = map (draw st sz) [0..<n]"

text \<open>The string \<open>roll\<close> builds from the dice: \<open>[d1, d2, ...]\<close>.\<close>

definition dice_string :: "int list \<Rightarrow> string" where
  "dice_string dice = ''['' @ join '', '' (map str_int dice) @ '']''"

text \<open>
  A text with no dice-roll term and no variable reference: digits, blanks, the four
  operators and brackets only.
\<close>

definition arithmetic_char :: "char \<Rightarrow> bool" where
  "arithmetic_char c = (is_digit c \<or> is_ws c \<or> c \<in> set ''+-*/()'')"

definition arithmetic :: "string \<Rightarrow> bool" where
  "arithmetic s = (\<forall>c\<in>set s. arithmetic_char c)"

text \<open>A parser that leaves \<open>vars\<close> as it found it.\<close>

definition keeps_vars :: "parser \<Rightarrow> bool" where
  "keeps_vars p = (\<forall>st inp a inp' st'. p st inp = Inr (a, inp', st') \<longrightarrow> vars st' = vars st)"

section \<open>Notions used in the proofs\<close>

text \<open>
  For the round trip of arithmetic texts. \<open>holds\<close>: the object at an address has an
  integer value and a string; \<open>extends\<close>: a later state has only added objects.
  \<open>follows\<close> describes what comes after a text: the token read there, which stops the
  production, and no digit that would lengthen a number. \<open>reads p stop v t\<close>: the
  parser \<open>p\<close> reads the text \<open>t\<close> in every state and before everything that \<open>follows\<close>,
  with the value \<open>v\<close> and the string \<open>t\<close> as its result; \<open>continues\<close> is the same for
  the loop of a left-recursive production, which starts from an object already built.
  \<open>atom_text\<close>, \<open>product_text\<close> and \<open>sum_text\<close> ask for it at every recursion bound
  from the length of the text on, and \<open>sound\<close> says that what a parser returns on
  arithmetic input is such a text.
\<close>

definition holds :: "state \<Rightarrow> nat \<Rightarrow> int \<Rightarrow> string \<Rightarrow> bool" where
  "holds st a v t =
     (a < length (heap st) \<and> r_value (obj st a) = IntV v \<and> r_string (obj st a) = Some t)"

definition extends :: "state \<Rightarrow> state \<Rightarrow> bool" where
  "extends st st' = (\<exists>ext. heap st' = heap st @ ext)"

definition arithmetic_input :: "input \<Rightarrow> bool" where
  "arithmetic_input inp =
     (fst (fst inp) \<in> set [NUMBER, PLUS, MINUS, STAR, SLASH, LPAR, RPAR, END] \<and>
      arithmetic (snd inp))"

definition stop_product :: "terminal list" where
  "stop_product = [PLUS, MINUS, RPAR, END]"

definition stop_sum :: "terminal list" where
  "stop_sum = [RPAR, END]"

definition follows :: "terminal list \<Rightarrow> string \<Rightarrow> input \<Rightarrow> bool" where
  "follows stop rest la =
     (next_token after_atom rest = Inr la \<and> fst (fst la) \<in> set stop \<and> \<not> starts_digit rest)"

definition reads :: "parser \<Rightarrow> terminal list \<Rightarrow> int \<Rightarrow> string \<Rightarrow> bool" where
  "reads p stop v t =
     (\<forall>st acc rest la. (acc = first_atom \<or> acc = first_dice) \<and> follows stop rest la \<longrightarrow>
        (\<exists>inp0 a st'. next_token acc (t @ rest) = Inr inp0 \<and>
           fst (fst inp0) \<in> set [NUMBER, MINUS, LPAR] \<and>
           p st inp0 = Inr (a, la, st') \<and> holds st' a v t \<and> extends st st'))"

definition continues ::
  "(state \<Rightarrow> nat \<Rightarrow> input \<Rightarrow> error + (nat \<times> input \<times> state)) \<Rightarrow>
   terminal list \<Rightarrow> terminal list \<Rightarrow> int \<Rightarrow> int \<Rightarrow> string \<Rightarrow> bool" where
  "continues lp mid stop v v' sfx =
     (\<forall>rest la. follows stop rest la \<longrightarrow>
        (\<exists>inp0. follows mid (sfx @ rest) inp0 \<and>
           (\<forall>st a t. holds st a v t \<longrightarrow>
              (\<exists>r st'. lp st a inp0 = Inr (r, la, st') \<and> holds st' r v' (t @ sfx) \<and>
                 extends st st'))))"

definition atom_text :: "int \<Rightarrow> string \<Rightarrow> bool" where
  "atom_text v t = (\<forall>F. length t \<le> F \<longrightarrow> reads (p_atom F) after_atom v t)"

definition product_rest :: "int \<Rightarrow> int \<Rightarrow> string \<Rightarrow> bool" where
  "product_rest v v' sfx =
     (\<forall>F f. length sfx \<le> F \<and> length sfx < f \<longrightarrow>
        continues (p_product_loop (p_atom F) f) follow_dice stop_product v v' sfx)"

definition product_text :: "int \<Rightarrow> string \<Rightarrow> bool" where
  "product_text v t =
     (\<forall>F f. length t \<le> F \<and> length t < f \<longrightarrow> reads (p_product (p_atom F) f) stop_product v t)"

definition sum_rest :: "int \<Rightarrow> int \<Rightarrow> string \<Rightarrow> bool" where
  "sum_rest v v' sfx =
     (\<forall>F f. length sfx \<le> F \<and> length sfx < f \<longrightarrow>
        continues (p_sum_loop (p_atom F) f) stop_product stop_sum v v' sfx)"

definition sum_text :: "int \<Rightarrow> string \<Rightarrow> bool" where
  "sum_text v t =
     (\<forall>F f. length t \<le> F \<and> length t < f \<longrightarrow> reads (p_sum (p_atom F) f) stop_sum v t)"

definition sound :: "parser \<Rightarrow> (int \<Rightarrow> string \<Rightarrow> bool) \<Rightarrow> bool" where
  "sound p T =
     (\<forall>st inp a inp' st'. arithmetic_input inp \<and> p st inp = Inr (a, inp', st') \<longrightarrow>
        arithmetic_input inp' \<and> extends st st' \<and> (\<exists>v t. holds st' a v t \<and> T v t))"

text \<open>
  For the recursion bound. \<open>fine\<close>: a result that is not \<open>OutOfFuel\<close> and, when the
  parser returned, leaves no more input unread than there was; \<open>bounded B p\<close>: the parser
  \<open>p\<close> is \<open>fine\<close> on every input shorter than \<open>B\<close>.
\<close>

definition fine :: "input \<Rightarrow> error + (nat \<times> input \<times> state) \<Rightarrow> bool" where
  "fine inp r =
     (r \<noteq> Inl OutOfFuel \<and>
      (\<forall>a inp' st'. r = Inr (a, inp', st') \<longrightarrow> length (snd inp') \<le> length (snd inp)))"

definition bounded :: "nat \<Rightarrow> parser \<Rightarrow> bool" where
  "bounded B p = (\<forall>st inp. length (snd inp) < B \<longrightarrow> fine inp (p st inp))"

section \<open>Evaluation on concrete inputs\<close>

lemmas lex_defs = next_token_def is_ws_def is_digit_def is_name_char_def literal_def keyword_def
  first_atom_def first_dice_def follow_dice_def after_first_name_def after_atom_def after_d_def

lemmas action_defs = binary_def unary_def floordiv_def add_def sub_def mul_def div_action_def
  neg_def add_flag_def dice_count_def dice_size_def dice_highest_def dice_lowest_def
  brackets_def roll_def assign_var_def var_def to_public_result_def obj_def alloc_def fmt_def
  DiceRoller_roll_def

lemmas number_defs = int_of_digits_def digit_val_def str_int_def digit_char_def str_nat.simps
  py_int_def py_str_def printable_def max_str_digits_def

lemmas parser_defs = parse_def fuel_def p_start_def p_sum_def p_product_def p_dice_def
  p_dice_tail_def p_roll_def p_modifier_def and_then_def value_of_def then_parse_def

lemmas run = parser_defs lex_defs action_defs number_def number_defs nth_append

section \<open>Lexing numbers\<close>

lemma digit_not_ws: "is_digit c \<Longrightarrow> \<not> is_ws c"
  by (auto simp: is_digit_def is_ws_def)

lemma takeWhile_no_digit: "\<not> starts_digit rest \<Longrightarrow> takeWhile is_digit rest = []"
  by (cases rest) (auto simp: starts_digit_def)

lemma dropWhile_no_digit: "\<not> starts_digit rest \<Longrightarrow> dropWhile is_digit rest = rest"
  by (cases rest) (auto simp: starts_digit_def)

lemma takeWhile_digits:
  "\<forall>c\<in>set ds. is_digit c \<Longrightarrow> \<not> starts_digit rest \<Longrightarrow> takeWhile is_digit (ds @ rest) = ds"
  by (simp add: takeWhile_no_digit)

lemma dropWhile_digits:
  "\<forall>c\<in>set ds. is_digit c \<Longrightarrow> \<not> starts_digit rest \<Longrightarrow> dropWhile is_digit (ds @ rest) = rest"
  by (simp add: dropWhile_no_digit)

lemma next_token_number:
  assumes "digits ds" "\<not> starts_digit rest" "NUMBER \<in> set acc"
  shows "next_token acc (ds @ rest) = Inr ((NUMBER, ds), rest)"
proof -
  from assms(1) obtain c cs where ds: "ds = c # cs" and c: "is_digit c" and cs: "\<forall>x\<in>set cs. is_digit x"
    by (cases ds) (auto simp: digits_def)
  have tw: "takeWhile is_digit (cs @ rest) = cs" "dropWhile is_digit (cs @ rest) = rest"
    using cs assms(2) takeWhile_digits dropWhile_digits by blast+
  show ?thesis
    using c assms(3) tw by (simp add: ds next_token_def digit_not_ws)
qed

lemma next_token_number_end:
  assumes "digits ds" "NUMBER \<in> set acc"
  shows "next_token acc ds = Inr ((NUMBER, ds), [])"
  using next_token_number [OF assms(1) _ assms(2), of "[]"] by (simp add: starts_digit_def)

lemma next_token_ws: "is_ws c \<Longrightarrow> next_token acc (c # s) = next_token acc s"
  by (simp add: next_token_def)

lemma not_starts_digit [simp]: "\<not> starts_digit []" "\<not> starts_digit (CHR ''d'' # s)"
   "\<not> starts_digit (CHR ''H'' # s)" "\<not> starts_digit (CHR ''L'' # s)" "\<not> starts_digit (CHR '' '' # s)"
  by (simp_all add: starts_digit_def is_digit_def)

lemma draw_heap [simp]: "draw (st\<lparr>heap := h\<rparr>) = draw st"
  by (intro ext) (simp add: draw_def)

lemmas acc_defs = first_atom_def first_dice_def follow_dice_def after_first_name_def
  after_atom_def after_d_def

lemmas char_defs = is_ws_def is_digit_def is_name_char_def literal_def keyword_def

section \<open>The length limit of the conversions\<close>

lemma int_of_digits_snoc: "int_of_digits (ds @ [c]) = 10 * int_of_digits ds + digit_val c"
  by (simp add: int_of_digits_def)

lemma max_str_digits_pos: "0 < max_str_digits"
  by (simp add: max_str_digits_def)

lemma str_nat_length_le: "0 < k \<Longrightarrow> length (str_nat n) \<le> k \<longleftrightarrow> n < 10 ^ k"
proof (induction n arbitrary: k rule: str_nat.induct)
  case (1 n)
  show ?case
  proof (cases "n < 10")
    case True
    have "(10::nat) ^ 1 \<le> 10 ^ k"
      using 1(2) by (intro power_increasing) simp_all
    then have "n < 10 ^ k" using True by simp
    then show ?thesis
      using True 1(2) by (simp add: str_nat.simps [of n])
  next
    case False
    show ?thesis
    proof (cases k)
      case 0
      then show ?thesis using 1(2) by simp
    next
      case (Suc j)
      show ?thesis
      proof (cases "j = 0")
        case True
        have "0 < length (str_nat (n div 10))"
          by (simp add: str_nat.simps [of "n div 10"])
        then show ?thesis
          using False True Suc by (simp add: str_nat.simps [of n])
      next
        case nz: False
        then have "length (str_nat (n div 10)) \<le> j \<longleftrightarrow> n div 10 < 10 ^ j"
          using 1(1) [OF False, of j] by simp
        moreover have "n div 10 < 10 ^ j \<longleftrightarrow> n < 10 ^ Suc j"
          by (simp add: div_less_iff_less_mult mult.commute)
        ultimately show ?thesis
          using False Suc by (simp add: str_nat.simps [of n])
      qed
    qed
  qed
qed

lemma printable_iff: "printable i \<longleftrightarrow> nat \<bar>i\<bar> < 10 ^ max_str_digits"
  unfolding printable_def by (rule str_nat_length_le [OF max_str_digits_pos])

lemma printable_mono: "printable j \<Longrightarrow> \<bar>i\<bar> \<le> \<bar>j\<bar> \<Longrightarrow> printable i"
  unfolding printable_iff by linarith

lemma printable_small: "\<bar>i\<bar> < 100 \<Longrightarrow> printable i"
proof -
  assume a: "\<bar>i\<bar> < 100"
  have "(10::nat) ^ 2 \<le> 10 ^ max_str_digits"
    by (intro power_increasing) (simp_all add: max_str_digits_def)
  moreover have "nat \<bar>i\<bar> < 10 ^ 2" using a by simp
  ultimately show ?thesis unfolding printable_iff by linarith
qed

lemma digit_val_bound: "is_digit c \<Longrightarrow> digit_val c \<le> 9"
  by (auto simp: is_digit_def digit_val_def)

lemma int_of_digits_bound: "\<forall>c\<in>set ds. is_digit c \<Longrightarrow> int_of_digits ds < 10 ^ length ds"
proof (induction ds rule: rev_induct)
  case Nil
  then show ?case by (simp add: int_of_digits_def)
next
  case (snoc c ds)
  then have "int_of_digits ds < 10 ^ length ds" "digit_val c \<le> 9"
    using digit_val_bound by auto
  then show ?case by (simp add: int_of_digits_snoc)
qed

lemma printable_digits:
  assumes "digits ds" "length ds \<le> max_str_digits"
  shows "printable (int (int_of_digits ds))"
proof -
  have "int_of_digits ds < 10 ^ length ds"
    using assms(1) by (intro int_of_digits_bound) (simp add: digits_def)
  moreover have "(10::nat) ^ length ds \<le> 10 ^ max_str_digits"
    using assms(2) by (intro power_increasing) simp_all
  ultimately have "int_of_digits ds < 10 ^ max_str_digits"
    by (rule less_le_trans)
  then show ?thesis unfolding printable_iff by simp
qed

lemma py_int_short: "length s \<le> max_str_digits \<Longrightarrow> py_int s = Inr (int (int_of_digits s))"
  by (simp add: py_int_def)

lemma py_int_long: "max_str_digits < length s \<Longrightarrow> py_int s = Inl ValueError"
  by (simp add: py_int_def)

lemma py_str_printable: "printable i \<Longrightarrow> py_str i = Inr (str_int i)"
  by (simp add: py_str_def)

lemma str_each_eq:
  "str_each ds = (if \<forall>d\<in>set ds. printable d then Inr (map str_int ds) else Inl ValueError)"
  by (induction ds) (auto simp: py_str_def)

lemma number_short:
  assumes "digits ds" "length ds \<le> max_str_digits"
  shows "number st ds =
     Inr (alloc st (IntV (int (int_of_digits ds))) (Some (str_nat (int_of_digits ds))) None)"
  using py_str_printable [OF printable_digits [OF assms]]
  by (simp add: number_def py_int_short [OF assms(2)] str_int_def)

lemma number_long: "max_str_digits < length ds \<Longrightarrow> number st ds = Inl ValueError"
  by (simp add: number_def py_int_long)

lemma number_returns:
  assumes "number st lx = Inr (a, st')"
  shows "length (str_nat (int_of_digits lx)) \<le> max_str_digits \<and>
     alloc st (IntV (int (int_of_digits lx))) (Some (str_nat (int_of_digits lx))) None = (a, st')"
  using assms
  by (auto simp: number_def py_int_def py_str_def printable_def str_int_def
      split: if_splits)

section \<open>Variables\<close>

text \<open>
  C3. A reference to a name that \<open>vars\<close> does not hold raises \<open>KeyError\<close>: the action
  \<open>var\<close> does, the parser of \<open>atom\<close> does once the token after the name is read, and
  so does the parse of \<open>y + 1\<close>; no value is returned.
\<close>

theorem unbound_variable_fails:
  "(\<forall>name. vars st name = None \<longrightarrow> var st name = Inl (KeyError name)) \<and>
   (\<forall>f name rest inp1. vars st name = None \<and> next_token after_atom rest = Inr inp1 \<longrightarrow>
      p_atom (Suc f) st ((NAME, name), rest) = Inl (KeyError name)) \<and>
   (vars st ''y'' = None \<longrightarrow> parse st ''y + 1'' = Inl (KeyError ''y''))"
proof -
  have 1: "\<forall>name. vars st name = None \<longrightarrow> var st name = Inl (KeyError name)"
    by (simp add: var_def)
  have 2: "\<forall>f name rest inp1. vars st name = None \<and> next_token after_atom rest = Inr inp1 \<longrightarrow>
      p_atom (Suc f) st ((NAME, name), rest) = Inl (KeyError name)"
    by (simp add: var_def and_then_def)
  have 3: "vars st ''y'' = None \<longrightarrow> parse st ''y + 1'' = Inl (KeyError ''y'')"
    by (simp add: run)
  from 1 2 3 show ?thesis by blast
qed

theorem unbound_variable_fails_witness:
  "vars new_parser ''y'' = None \<and> parse new_parser ''y + 1'' = Inl (KeyError ''y'')"
  using unbound_variable_fails [of new_parser]
  by (simp add: new_parser_def init_state_def)

text \<open>
  C4. \<open>assign_var\<close> stores under the name a new object with the child's value and the
  name as its string, and returns an object with that value and the string
  \<open>name = <child string>\<close>; \<open>var\<close> then returns the stored object. On every parser,
  \<open>x = 5\<close> evaluates to 5 with the text \<open>x = 5\<close>, and a following \<open>x + 1\<close> to 6.
\<close>

theorem variable_round_trip:
  "(\<exists>b r st'. assign_var st name a = Inr (r, st') \<and> vars st' name = Some b \<and>
      var st' name = Inr (b, st') \<and>
      obj st' b = \<lparr>r_value = r_value (obj st a), r_string = Some name, r_flag = None\<rparr> \<and>
      obj st' r = \<lparr>r_value = r_value (obj st a),
                    r_string = Some (name @ '' = '' @ fmt (r_string (obj st a))),
                    r_flag = None\<rparr>) \<and>
   value_of (parse st ''x = 5'') = Inr \<lparr>pr_value = 5, pr_string = ''x = 5''\<rparr> \<and>
   value_of (then_parse (parse st ''x = 5'') ''x + 1'') =
     Inr \<lparr>pr_value = 6, pr_string = ''x + 1''\<rparr>"
proof -
  have 1: "\<exists>b r st'. assign_var st name a = Inr (r, st') \<and> vars st' name = Some b \<and>
      var st' name = Inr (b, st') \<and>
      obj st' b = \<lparr>r_value = r_value (obj st a), r_string = Some name, r_flag = None\<rparr> \<and>
      obj st' r = \<lparr>r_value = r_value (obj st a),
                    r_string = Some (name @ '' = '' @ fmt (r_string (obj st a))),
                    r_flag = None\<rparr>"
    by (simp add: assign_var_def var_def alloc_def obj_def nth_append)
  have 2: "value_of (parse st ''x = 5'') = Inr \<lparr>pr_value = 5, pr_string = ''x = 5''\<rparr>"
    by (simp add: run)
  have 3: "value_of (then_parse (parse st ''x = 5'') ''x + 1'') =
     Inr \<lparr>pr_value = 6, pr_string = ''x + 1''\<rparr>"
    by (simp add: run)
  from 1 2 3 show ?thesis by blast
qed

section \<open>Keep modifiers and the roller\<close>

lemma safe_count_nat: "nat (safe_count k dice) = min (nat k) (length dice)"
  by (simp add: safe_count_def)

lemma safe_count_range: "0 \<le> safe_count k dice \<and> safe_count k dice \<le> int (length dice)"
  by (simp add: safe_count_def)

lemma highest_kept:
  "fst (get_actual_dice (HighestDiceModifier k) dice) = rev (largest (min (nat k) (length dice)) dice)"
proof -
  have "slice_bound (int (length dice) - safe_count k dice) (length dice)
        = length dice - min (nat k) (length dice)"
    using safe_count_range [of k dice] safe_count_nat [of k dice]
    by (simp add: slice_bound_def)
  then show ?thesis
    by (simp add: largest_def take_rev Let_def)
qed

lemma lowest_kept:
  "fst (get_actual_dice (LowestDiceModifier k) dice) = smallest (min (nat k) (length dice)) dice"
proof -
  have "slice_bound (safe_count k dice) (length dice) = min (nat k) (length dice)"
    using safe_count_range [of k dice] safe_count_nat [of k dice]
    by (simp add: slice_bound_def)
  then show ?thesis
    by (simp add: smallest_def Let_def)
qed

lemma kept_dropped_mset:
  "mset (fst (get_actual_dice m dice)) + mset (snd (get_actual_dice m dice)) = mset dice"
proof (cases m)
  case NullDiceModifier
  then show ?thesis by simp
next
  case (HighestDiceModifier k)
  have "mset (drop j (sort dice)) + mset (take j (sort dice)) = mset dice" for j
    by (metis add.commute append_take_drop_id mset_append mset_sort)
  then show ?thesis using HighestDiceModifier by (simp add: Let_def)
next
  case (LowestDiceModifier k)
  have "mset (take j (sort dice)) + mset (drop j (sort dice)) = mset dice" for j
    by (metis append_take_drop_id mset_append mset_sort)
  then show ?thesis using LowestDiceModifier by (simp add: Let_def)
qed

lemma kept_subset: "set (fst (get_actual_dice m dice)) \<subseteq> set dice"
  by (cases m) (auto simp: Let_def dest: in_set_dropD in_set_takeD)

lemma highest_order:
  "x \<in> set (fst (get_actual_dice (HighestDiceModifier k) dice)) \<Longrightarrow>
   y \<in> set (snd (get_actual_dice (HighestDiceModifier k) dice)) \<Longrightarrow> y \<le> x"
proof -
  have "sorted (take j (sort dice) @ drop j (sort dice))" for j by simp
  then have "\<forall>u\<in>set (take j (sort dice)). \<forall>v\<in>set (drop j (sort dice)). u \<le> v" for j
    unfolding sorted_append by blast
  then show "x \<in> set (fst (get_actual_dice (HighestDiceModifier k) dice)) \<Longrightarrow>
   y \<in> set (snd (get_actual_dice (HighestDiceModifier k) dice)) \<Longrightarrow> y \<le> x"
    by (simp add: Let_def)
qed

lemma lowest_order:
  "x \<in> set (fst (get_actual_dice (LowestDiceModifier k) dice)) \<Longrightarrow>
   y \<in> set (snd (get_actual_dice (LowestDiceModifier k) dice)) \<Longrightarrow> x \<le> y"
proof -
  have "sorted (take j (sort dice) @ drop j (sort dice))" for j by simp
  then have "\<forall>u\<in>set (take j (sort dice)). \<forall>v\<in>set (drop j (sort dice)). u \<le> v" for j
    unfolding sorted_append by blast
  then show "x \<in> set (fst (get_actual_dice (LowestDiceModifier k) dice)) \<Longrightarrow>
   y \<in> set (snd (get_actual_dice (LowestDiceModifier k) dice)) \<Longrightarrow> x \<le> y"
    by (simp add: Let_def)
qed

lemma sum_list_zeros: "\<forall>x\<in>set xs. x = (0::int) \<Longrightarrow> sum_list xs = 0"
  by (induction xs) auto

lemma roll_zero: "DiceRoller_roll st cnt 0 m = ((0, replicate (nat cnt) 0), st)"
proof -
  have "set (fst (get_actual_dice m (replicate (nat cnt) 0))) \<subseteq> {0}"
    using kept_subset [of m "replicate (nat cnt) 0"] by auto
  then have "sum_list (fst (get_actual_dice m (replicate (nat cnt) 0))) = 0"
    by (intro sum_list_zeros) blast
  then show ?thesis by (simp add: DiceRoller_roll_def)
qed

lemma draw_range: "1 \<le> sz \<Longrightarrow> 1 \<le> draw st sz i \<and> draw st sz i \<le> sz"
proof -
  assume "1 \<le> sz"
  then have "entropy st (drawn st + i) mod nat sz < nat sz" by simp
  then have "int (entropy st (drawn st + i) mod nat sz) < int (nat sz)"
    by (simp only: of_nat_less_iff)
  then show ?thesis using \<open>1 \<le> sz\<close> by (simp add: draw_def)
qed

lemma roll_scan_count:
  "roll_scan st args (c, s, m) = Inr (c', s', m') \<Longrightarrow>
   \<forall>a\<in>set args. r_flag (obj st a) \<noteq> Some ''dice_count'' \<Longrightarrow> c' = c"
  by (induction args arbitrary: c s m) (auto split: if_splits sum.splits pyvalue.splits)

lemma roll_scan_size:
  "roll_scan st args (c, s, m) = Inr (c', s', m') \<Longrightarrow>
   \<forall>a\<in>set args. r_flag (obj st a) \<noteq> Some ''dice_size'' \<Longrightarrow> s' = s"
  by (induction args arbitrary: c s m) (auto split: if_splits sum.splits pyvalue.splits)

lemma roll_scan_modifier:
  "roll_scan st args (c, s, m) = Inr (c', s', m') \<Longrightarrow>
   \<forall>a\<in>set args. r_flag (obj st a) \<noteq> Some ''dice_modifier'' \<Longrightarrow> m' = m"
  by (induction args arbitrary: c s m) (auto split: if_splits sum.splits pyvalue.splits)


section \<open>Parsing a roll\<close>

lemmas roll_run = parser_defs action_defs nth_append Let_def acc_defs char_defs
  next_token_def [of _ "[]"] next_token_def [of _ "CHR ''d'' # _"]
  next_token_def [of _ "CHR ''H'' # _"] next_token_def [of _ "CHR ''L'' # _"] next_token_ws
  outcomes_def dice_string_def

lemma printable_draw:
  assumes "1 \<le> sz" "printable sz"
  shows "printable (draw st sz i)"
  using draw_range [OF assms(1), of st i] by (intro printable_mono [OF assms(2)]) simp

lemma str_each_draws:
  assumes "1 \<le> sz" "printable sz"
  shows "str_each (map (draw st sz) xs) = Inr (map str_int (map (draw st sz) xs))"
  using printable_draw [OF assms] by (simp add: str_each_eq)

lemma py_str_d20: "py_str (draw st 20 i) = Inr (str_int (draw st 20 i))"
  by (intro py_str_printable printable_draw) (simp_all add: printable_small)

lemma number_die:
  assumes "digits m" "length m \<le> max_str_digits" "1 \<le> int_of_digits m"
  shows "py_str (draw st (int (int_of_digits m)) i) =
     Inr (str_int (draw st (int (int_of_digits m)) i))"
  using assms(3) by (intro py_str_printable printable_draw printable_digits [OF assms(1,2)]) simp

lemma str_each_zeros: "str_each (replicate n 0) = Inr (map str_int (replicate n 0))"
  by (simp add: str_each_eq printable_small)

lemma str_each_d20: "str_each (map (draw st 20) xs) = Inr (map str_int (map (draw st 20) xs))"
  by (rule str_each_draws) (simp_all add: printable_small)

lemma number_size:
  assumes "digits m" "length m \<le> max_str_digits" "1 \<le> int_of_digits m"
  shows "str_each (map (draw st (int (int_of_digits m))) xs) =
     Inr (map str_int (map (draw st (int (int_of_digits m))) xs))"
  using assms(3) by (intro str_each_draws printable_digits [OF assms(1,2)]) simp

lemma parse_NdM:
  assumes n: "digits n" and m: "digits m" and M: "1 \<le> int_of_digits m"
    and ln: "length n \<le> max_str_digits" and lm: "length m \<le> max_str_digits"
  shows "value_of (parse st (n @ ''d'' @ m)) =
     Inr \<lparr>pr_value = sum_list (outcomes st (int_of_digits n) (int (int_of_digits m))),
          pr_string = dice_string (outcomes st (int_of_digits n) (int (int_of_digits m)))\<rparr>"
  using M
  by (simp add: roll_run next_token_number [OF n] next_token_number_end [OF m]
      number_short [OF n ln] number_short [OF m lm] number_size [OF m lm M])

lemma parse_NdM_long:
  assumes n: "digits n" and m: "digits m"
    and l: "max_str_digits < length n \<or> max_str_digits < length m"
  shows "value_of (parse st (n @ ''d'' @ m)) = Inl ValueError"
proof (cases "max_str_digits < length n")
  case True
  then show ?thesis
    by (simp add: roll_run next_token_number [OF n] number_long)
next
  case False
  then have ln: "length n \<le> max_str_digits" and lm: "max_str_digits < length m"
    using l by auto
  show ?thesis
    by (simp add: roll_run next_token_number [OF n] next_token_number_end [OF m]
        number_short [OF n ln] number_long [OF lm])
qed

lemma parse_NdMHk:
  assumes n: "digits n" and m: "digits m" and k: "digits k" and M: "1 \<le> int_of_digits m"
    and ln: "length n \<le> max_str_digits" and lm: "length m \<le> max_str_digits"
    and lk: "length k \<le> max_str_digits"
  shows "value_of (parse st (n @ ''d'' @ m @ ''H '' @ k)) =
     Inr \<lparr>pr_value = sum_list (fst (get_actual_dice (HighestDiceModifier (int (int_of_digits k)))
                 (outcomes st (int_of_digits n) (int (int_of_digits m))))),
          pr_string = dice_string (outcomes st (int_of_digits n) (int (int_of_digits m)))\<rparr>"
  using M
  by (simp add: roll_run next_token_number [OF n] next_token_number [OF m]
      next_token_number_end [OF k] number_short [OF n ln] number_short [OF m lm]
      number_short [OF k lk] number_size [OF m lm M] del: get_actual_dice.simps)

lemma parse_NdMLk:
  assumes n: "digits n" and m: "digits m" and k: "digits k" and M: "1 \<le> int_of_digits m"
    and ln: "length n \<le> max_str_digits" and lm: "length m \<le> max_str_digits"
    and lk: "length k \<le> max_str_digits"
  shows "value_of (parse st (n @ ''d'' @ m @ ''L '' @ k)) =
     Inr \<lparr>pr_value = sum_list (fst (get_actual_dice (LowestDiceModifier (int (int_of_digits k)))
                 (outcomes st (int_of_digits n) (int (int_of_digits m))))),
          pr_string = dice_string (outcomes st (int_of_digits n) (int (int_of_digits m)))\<rparr>"
  using M
  by (simp add: roll_run next_token_number [OF n] next_token_number [OF m]
      next_token_number_end [OF k] number_short [OF n ln] number_short [OF m lm]
      number_short [OF k lk] number_size [OF m lm M] del: get_actual_dice.simps)

lemma parse_NdMHk_long:
  assumes n: "digits n" and m: "digits m" and k: "digits k"
    and l: "max_str_digits < length n \<or> max_str_digits < length m \<or> max_str_digits < length k"
  shows "value_of (parse st (n @ ''d'' @ m @ ''H '' @ k)) = Inl ValueError"
proof (cases "max_str_digits < length n")
  case True
  then show ?thesis
    by (simp add: roll_run next_token_number [OF n] number_long)
next
  case False
  then have ln: "length n \<le> max_str_digits" by simp
  show ?thesis
  proof (cases "max_str_digits < length m")
    case True
    then show ?thesis
      by (simp add: roll_run next_token_number [OF n] next_token_number [OF m]
          number_short [OF n ln] number_long)
  next
    case False
    then have lm: "length m \<le> max_str_digits" and lk: "max_str_digits < length k"
      using l ln by auto
    show ?thesis
      by (simp add: roll_run next_token_number [OF n] next_token_number [OF m]
          next_token_number_end [OF k] number_short [OF n ln] number_short [OF m lm]
          number_long [OF lk])
  qed
qed

lemma parse_NdMLk_long:
  assumes n: "digits n" and m: "digits m" and k: "digits k"
    and l: "max_str_digits < length n \<or> max_str_digits < length m \<or> max_str_digits < length k"
  shows "value_of (parse st (n @ ''d'' @ m @ ''L '' @ k)) = Inl ValueError"
proof (cases "max_str_digits < length n")
  case True
  then show ?thesis
    by (simp add: roll_run next_token_number [OF n] number_long)
next
  case False
  then have ln: "length n \<le> max_str_digits" by simp
  show ?thesis
  proof (cases "max_str_digits < length m")
    case True
    then show ?thesis
      by (simp add: roll_run next_token_number [OF n] next_token_number [OF m]
          number_short [OF n ln] number_long)
  next
    case False
    then have lm: "length m \<le> max_str_digits" and lk: "max_str_digits < length k"
      using l ln by auto
    show ?thesis
      by (simp add: roll_run next_token_number [OF n] next_token_number [OF m]
          next_token_number_end [OF k] number_short [OF n ln] number_short [OF m lm]
          number_long [OF lk])
  qed
qed

lemma parse_Nd0:
  assumes n: "digits n" and ln: "length n \<le> max_str_digits"
  shows "value_of (parse st (n @ ''d0'')) =
     Inr \<lparr>pr_value = 0, pr_string = dice_string (replicate (int_of_digits n) 0)\<rparr>"
proof -
  have z: "int_of_digits ''0'' = 0"
    by (simp add: int_of_digits_def digit_val_def)
  have nz: "number s ''0'' = Inr (alloc s (IntV 0) (Some ''0'') None)" for s
    using number_short [of "''0''" s]
    by (simp add: z digits_def is_digit_def max_str_digits_def str_nat.simps digit_char_def)
  show ?thesis
    by (simp add: roll_run next_token_number [OF n] next_token_def [of _ "''0''"] nz
        number_short [OF n ln] str_each_zeros sum_list_replicate)
qed

lemma parse_Nd:
  assumes n: "digits n" and ln: "length n \<le> max_str_digits"
  shows "value_of (parse st (n @ ''d'')) =
     Inr \<lparr>pr_value = sum_list (outcomes st (int_of_digits n) 20),
          pr_string = dice_string (outcomes st (int_of_digits n) 20)\<rparr>"
  by (simp add: roll_run next_token_number [OF n] number_short [OF n ln] str_each_d20)

lemma digits_not_name:
  "digits m \<Longrightarrow> takeWhile is_name_char m = [] \<and> dropWhile is_name_char m = m"
  by (cases m) (auto simp: digits_def is_digit_def is_name_char_def)

lemma parse_dM:
  assumes m: "digits m" and M: "1 \<le> int_of_digits m" and lm: "length m \<le> max_str_digits"
  shows "value_of (parse st (''d'' @ m)) =
     Inr \<lparr>pr_value = sum_list (outcomes st 1 (int (int_of_digits m))),
          pr_string = dice_string (outcomes st 1 (int (int_of_digits m)))\<rparr>"
  using M
  by (simp add: roll_run next_token_number_end [OF m] digits_not_name [OF m]
      number_short [OF m lm] number_die [OF m lm M])

lemma parse_d:
  "value_of (parse st ''d'') =
     Inr \<lparr>pr_value = sum_list (outcomes st 1 20), pr_string = dice_string (outcomes st 1 20)\<rparr>"
  by (simp add: roll_run py_str_d20)

lemma parse_Nd0_long:
  assumes n: "digits n" and l: "max_str_digits < length n"
  shows "value_of (parse st (n @ ''d0'')) = Inl ValueError"
  by (simp add: roll_run next_token_number [OF n] number_long [OF l])

lemma parse_Nd_long:
  assumes n: "digits n" and l: "max_str_digits < length n"
  shows "value_of (parse st (n @ ''d'')) = Inl ValueError"
  by (simp add: roll_run next_token_number [OF n] number_long [OF l])

lemma parse_dM_long:
  assumes m: "digits m" and l: "max_str_digits < length m"
  shows "value_of (parse st (''d'' @ m)) = Inl ValueError"
  by (simp add: roll_run next_token_number_end [OF m] digits_not_name [OF m] number_long [OF l])

lemma long_literal:
  "digits (replicate 4301 (CHR ''1'')) \<and> max_str_digits < length (replicate 4301 (CHR ''1''))"
  by (simp add: digits_def is_digit_def max_str_digits_def)

lemma outcomes_length: "length (outcomes st n sz) = n"
  by (simp add: outcomes_def)

lemma outcomes_range: "1 \<le> sz \<Longrightarrow> x \<in> set (outcomes st n sz) \<Longrightarrow> 1 \<le> x \<and> x \<le> sz"
  using draw_range by (auto simp: outcomes_def)

section \<open>Claims about rolls\<close>

text \<open>
  C5. For digit strings \<open>n\<close> and \<open>m\<close>, with \<open>m\<close> denoting at least 1: when neither is
  longer than the limit of \<open>int\<close>, the parse of \<open>n d m\<close> reports a list of as many outcomes
  as \<open>n\<close> denotes, each from 1 to the number \<open>m\<close> denotes; the modifier is the keep-all
  one, which keeps them all, and the value is the sum of the kept outcomes. When one of
  them is longer than the limit, the parse raises \<open>ValueError\<close>.
\<close>

theorem dice_roll_bounds:
  assumes "digits n" and "digits m" and "1 \<le> int_of_digits m"
  shows "(length n \<le> max_str_digits \<and> length m \<le> max_str_digits \<longrightarrow>
           (\<exists>outs. length outs = int_of_digits n \<and>
              (\<forall>x\<in>set outs. 1 \<le> x \<and> x \<le> int (int_of_digits m)) \<and>
              fst (get_actual_dice NullDiceModifier outs) = outs \<and>
              value_of (parse st (n @ ''d'' @ m)) =
                Inr \<lparr>pr_value = sum_list (fst (get_actual_dice NullDiceModifier outs)),
                     pr_string = dice_string outs\<rparr>)) \<and>
         (max_str_digits < length n \<or> max_str_digits < length m \<longrightarrow>
           value_of (parse st (n @ ''d'' @ m)) = Inl ValueError)"
proof (intro conjI impI)
  assume l: "length n \<le> max_str_digits \<and> length m \<le> max_str_digits"
  let ?outs = "outcomes st (int_of_digits n) (int (int_of_digits m))"
  have "length ?outs = int_of_digits n"
    by (rule outcomes_length)
  moreover have "\<forall>x\<in>set ?outs. 1 \<le> x \<and> x \<le> int (int_of_digits m)"
    using assms(3) outcomes_range [of "int (int_of_digits m)"] by simp
  moreover have "fst (get_actual_dice NullDiceModifier ?outs) = ?outs"
    by simp
  moreover have "value_of (parse st (n @ ''d'' @ m)) =
      Inr \<lparr>pr_value = sum_list (fst (get_actual_dice NullDiceModifier ?outs)),
           pr_string = dice_string ?outs\<rparr>"
    using parse_NdM [OF assms] l by simp
  ultimately show "\<exists>outs. length outs = int_of_digits n \<and>
              (\<forall>x\<in>set outs. 1 \<le> x \<and> x \<le> int (int_of_digits m)) \<and>
              fst (get_actual_dice NullDiceModifier outs) = outs \<and>
              value_of (parse st (n @ ''d'' @ m)) =
                Inr \<lparr>pr_value = sum_list (fst (get_actual_dice NullDiceModifier outs)),
                     pr_string = dice_string outs\<rparr>"
    by blast
next
  assume "max_str_digits < length n \<or> max_str_digits < length m"
  then show "value_of (parse st (n @ ''d'' @ m)) = Inl ValueError"
    by (rule parse_NdM_long [OF assms(1,2)])
qed

theorem dice_roll_bounds_witness:
  "digits ''2'' \<and> digits ''6'' \<and> 1 \<le> int_of_digits ''6'' \<and>
   length ''2'' \<le> max_str_digits \<and> length ''6'' \<le> max_str_digits \<and>
   value_of (parse (init_state (\<lambda>i. 3 * i + 4)) ''2d6'') =
     Inr \<lparr>pr_value = 7, pr_string = ''[5, 2]''\<rparr> \<and>
   digits (replicate 4301 (CHR ''1'')) \<and>
   max_str_digits < length (replicate 4301 (CHR ''1'')) \<and>
   value_of (parse new_parser (replicate 4301 (CHR ''1'') @ ''d'' @ ''6'')) = Inl ValueError"
proof -
  have s: "digits ''2'' \<and> digits ''6'' \<and> 1 \<le> int_of_digits ''6'' \<and>
      length ''2'' \<le> max_str_digits \<and> length ''6'' \<le> max_str_digits \<and>
      digits (replicate 4301 (CHR ''1'')) \<and>
      max_str_digits < length (replicate 4301 (CHR ''1''))"
    by (simp add: digits_def is_digit_def int_of_digits_def digit_val_def max_str_digits_def)
  have "value_of (parse (init_state (\<lambda>i. 3 * i + 4)) ''2d6'') =
     Inr \<lparr>pr_value = 7, pr_string = ''[5, 2]''\<rparr>"
    using dice_roll_bounds [of "''2''" "''6''" "init_state (\<lambda>i. 3 * i + 4)", THEN conjunct1]
    by (simp add: run digits_def init_state_def Let_def draw_def upt_rec)
  moreover have
    "value_of (parse new_parser (replicate 4301 (CHR ''1'') @ ''d'' @ ''6'')) = Inl ValueError"
    using dice_roll_bounds [of "replicate 4301 (CHR ''1'')" "''6''" new_parser, THEN conjunct2] s
    by blast
  ultimately show ?thesis using s by blast
qed

text \<open>
  C6. The kept dice of the keep-highest modifier are the \<open>c\<close> largest outcomes and those
  of the keep-lowest modifier the \<open>c\<close> smallest, where \<open>c\<close> is the keep count clamped to
  the number of dice (a negative count keeps none); kept and dropped dice together are
  the outcomes; the keep-all modifier keeps every outcome and drops none. So the parse
  of \<open>n d m H k\<close> has the sum of the \<open>k\<close> largest outcomes as its value, and that of
  \<open>n d m L k\<close> the sum of the \<open>k\<close> smallest, for digit strings within the limit of \<open>int\<close>;
  when one of them is longer than the limit, both raise \<open>ValueError\<close>.
\<close>

theorem keep_highest_lowest:
  "(\<forall>k dice.
      fst (get_actual_dice (HighestDiceModifier k) dice) =
        rev (largest (min (nat k) (length dice)) dice) \<and>
      fst (get_actual_dice (LowestDiceModifier k) dice) =
        smallest (min (nat k) (length dice)) dice \<and>
      get_actual_dice NullDiceModifier dice = (dice, [])) \<and>
   (\<forall>md dice. mset (fst (get_actual_dice md dice)) + mset (snd (get_actual_dice md dice)) =
      mset dice) \<and>
   (digits n \<and> digits m \<and> digits k \<and> 1 \<le> int_of_digits m \<and>
    length n \<le> max_str_digits \<and> length m \<le> max_str_digits \<and> length k \<le> max_str_digits \<longrightarrow>
      value_of (parse st (n @ ''d'' @ m @ ''H '' @ k)) =
        Inr \<lparr>pr_value = sum_list (largest (min (int_of_digits k) (int_of_digits n))
                           (outcomes st (int_of_digits n) (int (int_of_digits m)))),
             pr_string = dice_string (outcomes st (int_of_digits n) (int (int_of_digits m)))\<rparr> \<and>
      value_of (parse st (n @ ''d'' @ m @ ''L '' @ k)) =
        Inr \<lparr>pr_value = sum_list (smallest (min (int_of_digits k) (int_of_digits n))
                           (outcomes st (int_of_digits n) (int (int_of_digits m)))),
             pr_string = dice_string (outcomes st (int_of_digits n) (int (int_of_digits m)))\<rparr>) \<and>
   (digits n \<and> digits m \<and> digits k \<and>
    (max_str_digits < length n \<or> max_str_digits < length m \<or> max_str_digits < length k) \<longrightarrow>
      value_of (parse st (n @ ''d'' @ m @ ''H '' @ k)) = Inl ValueError \<and>
      value_of (parse st (n @ ''d'' @ m @ ''L '' @ k)) = Inl ValueError)"
proof -
  have 1: "\<forall>k dice.
      fst (get_actual_dice (HighestDiceModifier k) dice) =
        rev (largest (min (nat k) (length dice)) dice) \<and>
      fst (get_actual_dice (LowestDiceModifier k) dice) =
        smallest (min (nat k) (length dice)) dice \<and>
      get_actual_dice NullDiceModifier dice = (dice, [])"
    using highest_kept lowest_kept by simp
  have 2: "\<forall>md dice. mset (fst (get_actual_dice md dice)) + mset (snd (get_actual_dice md dice)) =
      mset dice"
    using kept_dropped_mset by blast
  have 3: "value_of (parse st (n @ ''d'' @ m @ ''H '' @ k)) =
        Inr \<lparr>pr_value = sum_list (largest (min (int_of_digits k) (int_of_digits n))
                           (outcomes st (int_of_digits n) (int (int_of_digits m)))),
             pr_string = dice_string (outcomes st (int_of_digits n) (int (int_of_digits m)))\<rparr>"
    if "digits n" "digits m" "digits k" "1 \<le> int_of_digits m"
      "length n \<le> max_str_digits" "length m \<le> max_str_digits" "length k \<le> max_str_digits"
    using parse_NdMHk [OF that]
    by (simp add: highest_kept outcomes_length del: get_actual_dice.simps)
  have 4: "value_of (parse st (n @ ''d'' @ m @ ''L '' @ k)) =
        Inr \<lparr>pr_value = sum_list (smallest (min (int_of_digits k) (int_of_digits n))
                           (outcomes st (int_of_digits n) (int (int_of_digits m)))),
             pr_string = dice_string (outcomes st (int_of_digits n) (int (int_of_digits m)))\<rparr>"
    if "digits n" "digits m" "digits k" "1 \<le> int_of_digits m"
      "length n \<le> max_str_digits" "length m \<le> max_str_digits" "length k \<le> max_str_digits"
    using parse_NdMLk [OF that]
    by (simp add: lowest_kept outcomes_length del: get_actual_dice.simps)
  have 5: "value_of (parse st (n @ ''d'' @ m @ ''H '' @ k)) = Inl ValueError \<and>
      value_of (parse st (n @ ''d'' @ m @ ''L '' @ k)) = Inl ValueError"
    if "digits n" "digits m" "digits k"
      "max_str_digits < length n \<or> max_str_digits < length m \<or> max_str_digits < length k"
    using parse_NdMHk_long [OF that] parse_NdMLk_long [OF that] by simp
  from 1 2 3 4 5 show ?thesis by blast
qed

theorem keep_highest_lowest_witness:
  "digits ''4'' \<and> digits ''6'' \<and> digits ''2'' \<and> 1 \<le> int_of_digits ''6'' \<and>
   length ''4'' \<le> max_str_digits \<and> length ''6'' \<le> max_str_digits \<and>
   length ''2'' \<le> max_str_digits \<and>
   value_of (parse (init_state (\<lambda>i. 3 * i + 4)) ''4d6H 2'') =
     Inr \<lparr>pr_value = 10, pr_string = ''[5, 2, 5, 2]''\<rparr> \<and>
   value_of (parse (init_state (\<lambda>i. 3 * i + 4)) ''4d6L 2'') =
     Inr \<lparr>pr_value = 4, pr_string = ''[5, 2, 5, 2]''\<rparr> \<and>
   digits (replicate 4301 (CHR ''1'')) \<and>
   max_str_digits < length (replicate 4301 (CHR ''1'')) \<and>
   value_of (parse new_parser (''4'' @ ''d'' @ ''6'' @ ''H '' @ replicate 4301 (CHR ''1''))) =
     Inl ValueError"
proof -
  have a: "digits ''4'' \<and> digits ''6'' \<and> digits ''2'' \<and> 1 \<le> int_of_digits ''6'' \<and>
      length ''4'' \<le> max_str_digits \<and> length ''6'' \<le> max_str_digits \<and>
      length ''2'' \<le> max_str_digits \<and>
      value_of (parse (init_state (\<lambda>i. 3 * i + 4)) ''4d6H 2'') =
        Inr \<lparr>pr_value = 10, pr_string = ''[5, 2, 5, 2]''\<rparr> \<and>
      value_of (parse (init_state (\<lambda>i. 3 * i + 4)) ''4d6L 2'') =
        Inr \<lparr>pr_value = 4, pr_string = ''[5, 2, 5, 2]''\<rparr>"
    using keep_highest_lowest [of "''4''" "''6''" "''2''" "init_state (\<lambda>i. 3 * i + 4)",
        THEN conjunct2, THEN conjunct2, THEN conjunct1]
    by (simp add: run digits_def init_state_def Let_def draw_def upt_rec safe_count_def
        slice_bound_def)
  have "value_of (parse new_parser (''4'' @ ''d'' @ ''6'' @ ''H '' @ replicate 4301 (CHR ''1''))) =
      Inl ValueError"
    using keep_highest_lowest [of "''4''" "''6''" "replicate 4301 (CHR ''1'')" new_parser,
        THEN conjunct2, THEN conjunct2, THEN conjunct2] a long_literal
    by blast
  then show ?thesis using a long_literal by blast
qed

text \<open>
  C7. \<open>dice_size\<close> turns a value below 1 into 0 and leaves any other value; the roller
  gives 0 for every die of size 0 and 0 as their total; so the parse of \<open>n d0\<close>, for a
  digit string \<open>n\<close> within the limit of \<open>int\<close>, has the value 0 and as many zeros as \<open>n\<close>
  denotes, three for \<open>3d0\<close>; for a longer \<open>n\<close> it raises \<open>ValueError\<close>.
\<close>

theorem size_clamp:
  "(\<forall>a x. a < length (heap st) \<and> r_value (obj st a) = IntV x \<longrightarrow>
      (\<exists>s st'. dice_size st a = Inr (s, st') \<and> r_flag (obj st' s) = Some ''dice_size'' \<and>
         r_value (obj st' s) = IntV (if x < 1 then 0 else x))) \<and>
   (\<forall>cnt md. DiceRoller_roll st cnt 0 md = ((0, replicate (nat cnt) 0), st)) \<and>
   (digits n \<and> length n \<le> max_str_digits \<longrightarrow> value_of (parse st (n @ ''d0'')) =
      Inr \<lparr>pr_value = 0, pr_string = dice_string (replicate (int_of_digits n) 0)\<rparr>) \<and>
   value_of (parse st ''3d0'') = Inr \<lparr>pr_value = 0, pr_string = ''[0, 0, 0]''\<rparr> \<and>
   (digits n \<and> max_str_digits < length n \<longrightarrow>
      value_of (parse st (n @ ''d0'')) = Inl ValueError)"
proof -
  have 1: "\<forall>a x. a < length (heap st) \<and> r_value (obj st a) = IntV x \<longrightarrow>
      (\<exists>s st'. dice_size st a = Inr (s, st') \<and> r_flag (obj st' s) = Some ''dice_size'' \<and>
         r_value (obj st' s) = IntV (if x < 1 then 0 else x))"
    by (simp add: dice_size_def add_flag_def alloc_def obj_def nth_append)
  have 2: "\<forall>cnt md. DiceRoller_roll st cnt 0 md = ((0, replicate (nat cnt) 0), st)"
    using roll_zero by blast
  have 3: "digits n \<and> length n \<le> max_str_digits \<longrightarrow> value_of (parse st (n @ ''d0'')) =
      Inr \<lparr>pr_value = 0, pr_string = dice_string (replicate (int_of_digits n) 0)\<rparr>"
    using parse_Nd0 by blast
  have 4: "value_of (parse st ''3d0'') = Inr \<lparr>pr_value = 0, pr_string = ''[0, 0, 0]''\<rparr>"
    by (simp add: run numeral_3_eq_3)
  have 5: "digits n \<and> max_str_digits < length n \<longrightarrow>
      value_of (parse st (n @ ''d0'')) = Inl ValueError"
    using parse_Nd0_long by blast
  from 1 2 3 4 5 show ?thesis by blast
qed

theorem size_clamp_witness:
  "digits ''12'' \<and> length ''12'' \<le> max_str_digits \<and>
   value_of (parse new_parser ''12d0'') =
     Inr \<lparr>pr_value = 0, pr_string = dice_string (replicate 12 0)\<rparr> \<and>
   0 < length (heap (snd (alloc new_parser (IntV (- 3)) None None))) \<and>
   (\<exists>s st'. dice_size (snd (alloc new_parser (IntV (- 3)) None None)) 0 = Inr (s, st') \<and>
      r_value (obj st' s) = IntV 0) \<and>
   digits (replicate 4301 (CHR ''1'')) \<and>
   max_str_digits < length (replicate 4301 (CHR ''1'')) \<and>
   value_of (parse new_parser (replicate 4301 (CHR ''1'') @ ''d0'')) = Inl ValueError"
proof -
  have a: "digits ''12'' \<and> length ''12'' \<le> max_str_digits \<and>
      value_of (parse new_parser ''12d0'') =
        Inr \<lparr>pr_value = 0, pr_string = dice_string (replicate 12 0)\<rparr> \<and>
      0 < length (heap (snd (alloc new_parser (IntV (- 3)) None None))) \<and>
      (\<exists>s st'. dice_size (snd (alloc new_parser (IntV (- 3)) None None)) 0 = Inr (s, st') \<and>
         r_value (obj st' s) = IntV 0)"
    using size_clamp [of "snd (alloc new_parser (IntV (- 3)) None None)" "''12''",
        THEN conjunct1, rule_format, of 0 "- 3"]
      size_clamp [of new_parser "''12''", THEN conjunct2, THEN conjunct2, THEN conjunct1]
    by (simp add: digits_def is_digit_def int_of_digits_def digit_val_def alloc_def obj_def
        new_parser_def init_state_def dice_size_def add_flag_def max_str_digits_def)
  have "value_of (parse new_parser (replicate 4301 (CHR ''1'') @ ''d0'')) = Inl ValueError"
    using size_clamp [of new_parser "replicate 4301 (CHR ''1'')", THEN conjunct2,
        THEN conjunct2, THEN conjunct2, THEN conjunct2] long_literal
    by blast
  then show ?thesis using a long_literal by blast
qed

text \<open>
  C8. \<open>roll\<close> starts its scan from count 1, size 20 and the keep-all modifier, and a role
  that no argument carries keeps that default; it returns the total and the text of the
  dice, unless a die is too long for \<open>str\<close>; the keep-all modifier keeps every die. So
  the parse of \<open>d\<close> rolls one die of 20 faces and its value is that outcome; the parse of
  \<open>n d\<close> rolls dice of 20 faces, and that of \<open>d m\<close> one die, for digit strings within the
  limit of \<open>int\<close>; for longer ones both raise \<open>ValueError\<close>.
\<close>

theorem roll_defaults:
  "(roll st args =
      and_then (roll_scan st args (1, 20, NullDiceModifier)) (\<lambda>(cnt, sz, md).
        case DiceRoller_roll st cnt sz md of
          ((rolled, dice), st1) \<Rightarrow>
            if \<forall>d\<in>set dice. printable d
            then Inr (alloc st1 (IntV rolled) (Some (dice_string dice)) None)
            else Inl ValueError)) \<and>
   (\<forall>c s md c' s' md'. roll_scan st args (c, s, md) = Inr (c', s', md') \<longrightarrow>
      ((\<forall>a\<in>set args. r_flag (obj st a) \<noteq> Some ''dice_count'') \<longrightarrow> c' = c) \<and>
      ((\<forall>a\<in>set args. r_flag (obj st a) \<noteq> Some ''dice_size'') \<longrightarrow> s' = s) \<and>
      ((\<forall>a\<in>set args. r_flag (obj st a) \<noteq> Some ''dice_modifier'') \<longrightarrow> md' = md)) \<and>
   (\<forall>dice. get_actual_dice NullDiceModifier dice = (dice, [])) \<and>
   value_of (parse st ''d'') =
     Inr \<lparr>pr_value = draw st 20 0, pr_string = ''['' @ str_int (draw st 20 0) @ '']''\<rparr> \<and>
   1 \<le> draw st 20 0 \<and> draw st 20 0 \<le> 20 \<and>
   (digits n \<and> length n \<le> max_str_digits \<longrightarrow> value_of (parse st (n @ ''d'')) =
      Inr \<lparr>pr_value = sum_list (outcomes st (int_of_digits n) 20),
           pr_string = dice_string (outcomes st (int_of_digits n) 20)\<rparr>) \<and>
   (digits m \<and> 1 \<le> int_of_digits m \<and> length m \<le> max_str_digits \<longrightarrow>
      value_of (parse st (''d'' @ m)) =
      Inr \<lparr>pr_value = draw st (int (int_of_digits m)) 0,
           pr_string = ''['' @ str_int (draw st (int (int_of_digits m)) 0) @ '']''\<rparr>) \<and>
   (digits n \<and> max_str_digits < length n \<longrightarrow>
      value_of (parse st (n @ ''d'')) = Inl ValueError) \<and>
   (digits m \<and> max_str_digits < length m \<longrightarrow>
      value_of (parse st (''d'' @ m)) = Inl ValueError)"
proof -
  have 1: "roll st args =
      and_then (roll_scan st args (1, 20, NullDiceModifier)) (\<lambda>(cnt, sz, md).
        case DiceRoller_roll st cnt sz md of
          ((rolled, dice), st1) \<Rightarrow>
            if \<forall>d\<in>set dice. printable d
            then Inr (alloc st1 (IntV rolled) (Some (dice_string dice)) None)
            else Inl ValueError)"
    by (auto simp: roll_def and_then_def dice_string_def str_each_eq
        split: sum.splits prod.splits)
  have 2: "\<forall>c s md c' s' md'. roll_scan st args (c, s, md) = Inr (c', s', md') \<longrightarrow>
      ((\<forall>a\<in>set args. r_flag (obj st a) \<noteq> Some ''dice_count'') \<longrightarrow> c' = c) \<and>
      ((\<forall>a\<in>set args. r_flag (obj st a) \<noteq> Some ''dice_size'') \<longrightarrow> s' = s) \<and>
      ((\<forall>a\<in>set args. r_flag (obj st a) \<noteq> Some ''dice_modifier'') \<longrightarrow> md' = md)"
    by (intro allI impI conjI;
        (erule (1) roll_scan_count | erule (1) roll_scan_size | erule (1) roll_scan_modifier))
  have 3: "\<forall>dice. get_actual_dice NullDiceModifier dice = (dice, [])"
    by simp
  have 4: "value_of (parse st ''d'') =
     Inr \<lparr>pr_value = draw st 20 0, pr_string = ''['' @ str_int (draw st 20 0) @ '']''\<rparr>"
    using parse_d [of st] by (simp add: outcomes_def dice_string_def)
  have 5: "1 \<le> draw st 20 0 \<and> draw st 20 0 \<le> 20"
    using draw_range [of 20 st 0] by simp
  have 6: "digits n \<and> length n \<le> max_str_digits \<longrightarrow> value_of (parse st (n @ ''d'')) =
      Inr \<lparr>pr_value = sum_list (outcomes st (int_of_digits n) 20),
           pr_string = dice_string (outcomes st (int_of_digits n) 20)\<rparr>"
    using parse_Nd by blast
  have 7: "digits m \<and> 1 \<le> int_of_digits m \<and> length m \<le> max_str_digits \<longrightarrow>
      value_of (parse st (''d'' @ m)) =
      Inr \<lparr>pr_value = draw st (int (int_of_digits m)) 0,
           pr_string = ''['' @ str_int (draw st (int (int_of_digits m)) 0) @ '']''\<rparr>"
    using parse_dM [of m st] by (simp add: outcomes_def dice_string_def)
  have 8: "digits n \<and> max_str_digits < length n \<longrightarrow>
      value_of (parse st (n @ ''d'')) = Inl ValueError"
    using parse_Nd_long by blast
  have 9: "digits m \<and> max_str_digits < length m \<longrightarrow>
      value_of (parse st (''d'' @ m)) = Inl ValueError"
    using parse_dM_long by blast
  from 1 2 3 4 5 6 7 8 9 show ?thesis by blast
qed

theorem roll_defaults_witness:
  "digits ''3'' \<and> digits ''6'' \<and> 1 \<le> int_of_digits ''6'' \<and>
   length ''3'' \<le> max_str_digits \<and> length ''6'' \<le> max_str_digits \<and>
   value_of (parse (init_state (\<lambda>i. 3 * i + 4)) ''d'') =
     Inr \<lparr>pr_value = 5, pr_string = ''[5]''\<rparr> \<and>
   value_of (parse (init_state (\<lambda>i. 3 * i + 4)) ''3d'') =
     Inr \<lparr>pr_value = 24, pr_string = ''[5, 8, 11]''\<rparr> \<and>
   value_of (parse (init_state (\<lambda>i. 3 * i + 4)) ''d6'') =
     Inr \<lparr>pr_value = 5, pr_string = ''[5]''\<rparr> \<and>
   digits (replicate 4301 (CHR ''1'')) \<and>
   max_str_digits < length (replicate 4301 (CHR ''1'')) \<and>
   value_of (parse new_parser (replicate 4301 (CHR ''1'') @ ''d'')) = Inl ValueError \<and>
   value_of (parse new_parser (''d'' @ replicate 4301 (CHR ''1''))) = Inl ValueError"
proof -
  have a: "digits ''3'' \<and> digits ''6'' \<and> 1 \<le> int_of_digits ''6'' \<and>
      length ''3'' \<le> max_str_digits \<and> length ''6'' \<le> max_str_digits \<and>
      value_of (parse (init_state (\<lambda>i. 3 * i + 4)) ''d'') =
        Inr \<lparr>pr_value = 5, pr_string = ''[5]''\<rparr> \<and>
      value_of (parse (init_state (\<lambda>i. 3 * i + 4)) ''3d'') =
        Inr \<lparr>pr_value = 24, pr_string = ''[5, 8, 11]''\<rparr> \<and>
      value_of (parse (init_state (\<lambda>i. 3 * i + 4)) ''d6'') =
        Inr \<lparr>pr_value = 5, pr_string = ''[5]''\<rparr>"
    using roll_defaults [of "init_state (\<lambda>i. 3 * i + 4)" "[]" "''3''" "''6''"]
    by (simp add: run digits_def init_state_def Let_def draw_def upt_rec)
  have "value_of (parse new_parser (replicate 4301 (CHR ''1'') @ ''d'')) = Inl ValueError \<and>
      value_of (parse new_parser (''d'' @ replicate 4301 (CHR ''1''))) = Inl ValueError"
    using roll_defaults [of new_parser "[]" "replicate 4301 (CHR ''1'')"
        "replicate 4301 (CHR ''1'')"] long_literal
    by blast
  then show ?thesis using a long_literal by blast
qed

text \<open>
  C10. \<open>var\<close> returns the address of the stored object, and \<open>dice_size\<close> on an object
  whose value is below 1 writes 0 into that object: the variable then refers to 0. On
  every parser, after \<open>x = -2\<close> the text \<open>x\<close> evaluates to -2, but once \<open>1dx\<close> has been
  parsed it evaluates to 0.
\<close>

theorem size_clamp_overwrites_binding:
  "(\<forall>name b x. vars st name = Some b \<and> b < length (heap st) \<and>
      r_value (obj st b) = IntV x \<and> x < 1 \<longrightarrow>
      var st name = Inr (b, st) \<and>
      (\<exists>s st'. dice_size st b = Inr (s, st') \<and> vars st' name = Some b \<and>
         var st' name = Inr (b, st') \<and> r_value (obj st' b) = IntV 0)) \<and>
   value_of (parse st ''x = -2'') = Inr \<lparr>pr_value = - 2, pr_string = ''x = -2''\<rparr> \<and>
   value_of (then_parse (parse st ''x = -2'') ''x'') =
     Inr \<lparr>pr_value = - 2, pr_string = ''x''\<rparr> \<and>
   value_of (then_parse (parse st ''x = -2'') ''1dx'') =
     Inr \<lparr>pr_value = 0, pr_string = ''[0]''\<rparr> \<and>
   value_of (then_parse (then_parse (parse st ''x = -2'') ''1dx'') ''x'') =
     Inr \<lparr>pr_value = 0, pr_string = ''x''\<rparr>"
proof -
  have 1: "\<forall>name b x. vars st name = Some b \<and> b < length (heap st) \<and>
      r_value (obj st b) = IntV x \<and> x < 1 \<longrightarrow>
      var st name = Inr (b, st) \<and>
      (\<exists>s st'. dice_size st b = Inr (s, st') \<and> vars st' name = Some b \<and>
         var st' name = Inr (b, st') \<and> r_value (obj st' b) = IntV 0)"
    by (simp add: var_def dice_size_def add_flag_def alloc_def obj_def nth_append)
  have 2: "value_of (parse st ''x = -2'') = Inr \<lparr>pr_value = - 2, pr_string = ''x = -2''\<rparr>"
    by (simp add: run)
  have 3: "value_of (then_parse (parse st ''x = -2'') ''x'') =
     Inr \<lparr>pr_value = - 2, pr_string = ''x''\<rparr>"
    by (simp add: run)
  have 4: "value_of (then_parse (parse st ''x = -2'') ''1dx'') =
     Inr \<lparr>pr_value = 0, pr_string = ''[0]''\<rparr>"
    by (simp add: run)
  have 5: "value_of (then_parse (then_parse (parse st ''x = -2'') ''1dx'') ''x'') =
     Inr \<lparr>pr_value = 0, pr_string = ''x''\<rparr>"
    by (simp add: run)
  from 1 2 3 4 5 show ?thesis by blast
qed

theorem size_clamp_overwrites_binding_witness:
  "value_of (then_parse (then_parse (parse new_parser ''x = -2'') ''1dx'') ''x'') =
     Inr \<lparr>pr_value = 0, pr_string = ''x''\<rparr> \<and>
   (\<exists>s st'. dice_size
       \<lparr>heap = [\<lparr>r_value = IntV (- 2), r_string = Some ''x'', r_flag = None\<rparr>],
        vars = (\<lambda>n. if n = ''x'' then Some 0 else None), entropy = (\<lambda>i. 0), drawn = 0\<rparr> 0 =
       Inr (s, st') \<and> r_value (obj st' 0) = IntV 0)"
proof -
  let ?st = "\<lparr>heap = [\<lparr>r_value = IntV (- 2), r_string = Some ''x'', r_flag = None\<rparr>],
        vars = (\<lambda>n. if n = ''x'' then Some 0 else None), entropy = (\<lambda>i. 0), drawn = 0\<rparr>"
  have "vars ?st ''x'' = Some 0 \<and> 0 < length (heap ?st) \<and>
      r_value (obj ?st 0) = IntV (- 2) \<and> (- 2 :: int) < 1"
    by (simp add: obj_def)
  then have "\<exists>s st'. dice_size ?st 0 = Inr (s, st') \<and> vars st' ''x'' = Some 0 \<and>
         var st' ''x'' = Inr (0, st') \<and> r_value (obj st' 0) = IntV 0"
    using size_clamp_overwrites_binding [of ?st, THEN conjunct1, rule_format, of "''x''" 0 "- 2"]
    by blast
  then have "\<exists>s st'. dice_size ?st 0 = Inr (s, st') \<and> r_value (obj st' 0) = IntV 0"
    by blast
  then show ?thesis
    using size_clamp_overwrites_binding [of new_parser] by blast
qed

section \<open>The variables across calls\<close>

lemma keeps_varsD: "keeps_vars p \<Longrightarrow> p st inp = Inr (a, inp', st') \<Longrightarrow> vars st' = vars st"
  unfolding keeps_vars_def by blast

lemma and_then_Inr: "and_then r k = Inr y \<longleftrightarrow> (\<exists>x. r = Inr x \<and> k x = Inr y)"
  by (cases r) (simp_all add: and_then_def)

lemma alloc_vars: "alloc st v s fl = (a, st') \<Longrightarrow> vars st' = vars st"
  by (auto simp: alloc_def)

lemma binary_vars: "binary f t st a b = Inr (c, st') \<Longrightarrow> vars st' = vars st"
  by (auto simp: binary_def alloc_def split: pyvalue.splits sum.splits)

lemma unary_vars: "unary f t st a = Inr (c, st') \<Longrightarrow> vars st' = vars st"
  by (auto simp: unary_def alloc_def split: pyvalue.splits)

lemma action_vars:
  "number st lx = Inr (c, st') \<Longrightarrow> vars st' = vars st"
  "var st lx = Inr (c, st') \<Longrightarrow> vars st' = vars st"
  "neg st a = Inr (c, st') \<Longrightarrow> vars st' = vars st"
  "brackets st a = Inr (c, st') \<Longrightarrow> vars st' = vars st"
  "dice_count st a = Inr (c, st') \<Longrightarrow> vars st' = vars st"
  "dice_size st a = Inr (c, st') \<Longrightarrow> vars st' = vars st"
  "dice_highest st a = Inr (c, st') \<Longrightarrow> vars st' = vars st"
  "dice_lowest st a = Inr (c, st') \<Longrightarrow> vars st' = vars st"
  "roll st args = Inr (c, st') \<Longrightarrow> vars st' = vars st"
  "add st a b = Inr (c, st') \<Longrightarrow> vars st' = vars st"
  "sub st a b = Inr (c, st') \<Longrightarrow> vars st' = vars st"
  "mul st a b = Inr (c, st') \<Longrightarrow> vars st' = vars st"
  "div_action st a b = Inr (c, st') \<Longrightarrow> vars st' = vars st"
  by (auto simp: number_def var_def neg_def brackets_def dice_count_def dice_size_def
      dice_highest_def dice_lowest_def roll_def add_def sub_def mul_def div_action_def
      add_flag_def alloc_def DiceRoller_roll_def Let_def
      dest: binary_vars unary_vars split: option.splits pyvalue.splits sum.splits prod.splits if_splits)

lemma p_modifier_vars:
  assumes "keeps_vars atom" "p_modifier atom st args inp = Inr (r, inp', st')"
  shows "vars st' = vars st"
  using assms
  by (auto simp: p_modifier_def keeps_vars_def and_then_Inr split: prod.splits if_splits
      dest!: action_vars) 


lemma p_roll_vars:
  assumes "keeps_vars atom" "p_roll atom st args inp = Inr (r, inp', st')"
  shows "vars st' = vars st"
  using assms
  by (auto simp: p_roll_def keeps_vars_def and_then_Inr split: prod.splits if_splits
      dest!: action_vars p_modifier_vars [OF assms(1)])

lemma p_dice_tail_vars:
  assumes "keeps_vars atom" "p_dice_tail atom st a inp = Inr (r, inp', st')"
  shows "vars st' = vars st"
  using assms
  by (auto simp: p_dice_tail_def and_then_Inr split: prod.splits if_splits
      dest!: action_vars p_roll_vars [OF assms(1)])

lemma p_dice_vars:
  assumes "keeps_vars atom"
  shows "keeps_vars (p_dice atom)"
  using assms unfolding keeps_vars_def [of "p_dice atom"]
  by (auto simp: p_dice_def and_then_Inr keeps_vars_def split: prod.splits if_splits
      dest!: p_roll_vars [OF assms] p_dice_tail_vars [OF assms])

lemma p_product_loop_vars:
  assumes "keeps_vars atom"
  shows "p_product_loop atom f st a inp = Inr (r, inp', st') \<Longrightarrow> vars st' = vars st"
proof (induction f arbitrary: st a inp)
  case 0
  then show ?case by simp
next
  case (Suc f)
  obtain t lx rest where inp: "inp = ((t, lx), rest)" by (metis surj_pair)
  show ?case
  proof (cases "t = STAR \<or> t = SLASH")
    case False
    then show ?thesis using Suc.prems by (simp add: inp)
  next
    case True
    then obtain inp1 b inp2 st1 c st2 where
      d: "p_dice atom st inp1 = Inr (b, inp2, st1)" and
      m: "(if t = STAR then mul else div_action) st1 a b = Inr (c, st2)" and
      l: "p_product_loop atom f st2 c inp2 = Inr (r, inp', st')"
      using Suc.prems by (auto simp: inp and_then_Inr)
    have "vars st1 = vars st"
      using keeps_varsD [OF p_dice_vars [OF assms] d] .
    moreover have "vars st2 = vars st1"
      using m action_vars(12,13) by (auto split: if_splits)
    moreover have "vars st' = vars st2"
      using Suc.IH l by blast
    ultimately show ?thesis by simp
  qed
qed

lemma p_product_vars:
  assumes "keeps_vars atom"
  shows "keeps_vars (p_product atom f)"
  unfolding keeps_vars_def [of "p_product atom f"]
proof (intro allI impI)
  fix st inp a inp' st'
  assume "p_product atom f st inp = Inr (a, inp', st')"
  then obtain b inp1 st1 where d: "p_dice atom st inp = Inr (b, inp1, st1)"
    and l: "p_product_loop atom f st1 b inp1 = Inr (a, inp', st')"
    by (auto simp: p_product_def and_then_Inr)
  have "vars st1 = vars st"
    using keeps_varsD [OF p_dice_vars [OF assms] d] .
  then show "vars st' = vars st"
    using p_product_loop_vars [OF assms l] by simp
qed

lemma p_sum_loop_vars:
  assumes "keeps_vars atom"
  shows "p_sum_loop atom f st a inp = Inr (r, inp', st') \<Longrightarrow> vars st' = vars st"
proof (induction f arbitrary: st a inp)
  case 0
  then show ?case by simp
next
  case (Suc f)
  obtain t lx rest where inp: "inp = ((t, lx), rest)" by (metis surj_pair)
  show ?case
  proof (cases "t = PLUS \<or> t = MINUS")
    case False
    then show ?thesis using Suc.prems by (simp add: inp)
  next
    case True
    then obtain inp1 b inp2 st1 c st2 where
      d: "p_product atom f st inp1 = Inr (b, inp2, st1)" and
      m: "(if t = PLUS then add else sub) st1 a b = Inr (c, st2)" and
      l: "p_sum_loop atom f st2 c inp2 = Inr (r, inp', st')"
      using Suc.prems by (auto simp: inp and_then_Inr)
    have "vars st1 = vars st"
      using keeps_varsD [OF p_product_vars [OF assms] d] .
    moreover have "vars st2 = vars st1"
      using m action_vars(10,11) by (auto split: if_splits)
    moreover have "vars st' = vars st2"
      using Suc.IH l by blast
    ultimately show ?thesis by simp
  qed
qed

lemma p_sum_vars:
  assumes "keeps_vars atom"
  shows "keeps_vars (p_sum atom f)"
  unfolding keeps_vars_def [of "p_sum atom f"]
proof (intro allI impI)
  fix st inp a inp' st'
  assume "p_sum atom f st inp = Inr (a, inp', st')"
  then obtain b inp1 st1 where d: "p_product atom f st inp = Inr (b, inp1, st1)"
    and l: "p_sum_loop atom f st1 b inp1 = Inr (a, inp', st')"
    by (auto simp: p_sum_def and_then_Inr)
  have "vars st1 = vars st"
    using keeps_varsD [OF p_product_vars [OF assms] d] .
  then show "vars st' = vars st"
    using p_sum_loop_vars [OF assms l] by simp
qed

lemma p_atom_vars: "keeps_vars (p_atom f)"
proof (induction f)
  case 0
  then show ?case by (simp add: keeps_vars_def)
next
  case (Suc f)
  have s: "keeps_vars (p_sum (p_atom f) f)"
    by (rule p_sum_vars [OF Suc])
  show ?case
    unfolding keeps_vars_def [of "p_atom (Suc f)"]
    using Suc s
    by (auto simp: keeps_vars_def [of "p_atom f"] keeps_vars_def [of "p_sum (p_atom f) f"]
        and_then_Inr split: prod.splits if_splits dest!: action_vars)
qed

lemma assign_var_vars:
  "assign_var st name a = Inr (r, st') \<Longrightarrow> \<exists>b. vars st' = (vars st)(name := Some b)"
  by (auto simp: assign_var_def alloc_def)

lemma p_start_vars:
  assumes "p_start f st s = Inr (a, st')"
  shows "vars st' = vars st \<or> (\<exists>name b. vars st' = (vars st)(name := Some b))"
proof -
  note k = p_atom_vars [of f]
  note ks = keeps_varsD [OF p_sum_vars [OF k, of f]]
  obtain t lx rest where tok: "next_token first_dice s = Inr ((t, lx), rest)"
    using assms by (auto simp: p_start_def and_then_Inr)
  show ?thesis
  proof (cases "t = NAME")
    case False
    then obtain inp' where "p_sum (p_atom f) f st ((t, lx), rest) = Inr (a, inp', st')"
      using assms tok by (auto simp: p_start_def and_then_Inr split: if_splits)
    then show ?thesis using ks by blast
  next
    case True
    then obtain t2 lx2 rest2 where tok2: "next_token after_first_name rest = Inr ((t2, lx2), rest2)"
      using assms tok by (auto simp: p_start_def and_then_Inr)
    show ?thesis
    proof (cases "t2 = EQUAL")
      case True
      then obtain inp b inp' st1 where
        s: "p_sum (p_atom f) f st inp = Inr (b, inp', st1)" and
        av: "assign_var st1 lx b = Inr (a, st')"
        using assms tok tok2 \<open>t = NAME\<close>
        by (auto simp: p_start_def and_then_Inr split: if_splits)
      have "vars st1 = vars st" using ks [OF s] .
      then show ?thesis using assign_var_vars [OF av] by auto
    next
      case False
      then obtain b st1 c inp1 st2 d inp2 st3 inp3 where
        v: "var st lx = Inr (b, st1)" and
        dt: "p_dice_tail (p_atom f) st1 b ((t2, lx2), rest2) = Inr (c, inp1, st2)" and
        pl: "p_product_loop (p_atom f) f st2 c inp1 = Inr (d, inp2, st3)" and
        sl: "p_sum_loop (p_atom f) f st3 d inp2 = Inr (a, inp3, st')"
        using assms tok tok2 \<open>t = NAME\<close>
        by (auto simp: p_start_def and_then_Inr split: if_splits)
      have "vars st1 = vars st" using action_vars(2) [OF v] .
      moreover have "vars st2 = vars st1" using p_dice_tail_vars [OF k dt] .
      moreover have "vars st3 = vars st2" using p_product_loop_vars [OF k pl] .
      moreover have "vars st' = vars st3" using p_sum_loop_vars [OF k sl] .
      ultimately show ?thesis by simp
    qed
  qed
qed

lemma parse_vars:
  assumes "parse st s = Inr (r, st')"
  shows "vars st' = vars st \<or> (\<exists>name b. vars st' = (vars st)(name := Some b))"
proof -
  obtain a where "p_start (fuel s) st s = Inr (a, st')"
    using assms by (auto simp: parse_def and_then_Inr)
  then show ?thesis by (rule p_start_vars)
qed

text \<open>
  C1 as stated fails: on a parser just constructed, \<open>x + 1\<close> raises \<open>KeyError\<close>, but after
  a call that parsed \<open>x = 5\<close> the same text evaluates to 6.
\<close>

theorem environment_not_per_call:
  "value_of (parse new_parser ''x + 1'') = Inl (KeyError ''x'') \<and>
   value_of (then_parse (parse new_parser ''x = 5'') ''x + 1'') =
     Inr \<lparr>pr_value = 6, pr_string = ''x + 1''\<rparr>"
  by (simp add: run new_parser_def init_state_def)

text \<open>
  C1, amended. \<open>vars\<close> is built once, with the parser: empty at construction, and a call
  of \<open>parse\<close> that returns leaves it as it was or adds or replaces one binding, so every
  name bound before the call is bound after it; a variable assigned in one call is read
  by the next (\<open>x = 5\<close>, then \<open>x + 1\<close> is 6).
\<close>

theorem environment_shared_across_calls:
  "(\<forall>rnd name. vars (init_state rnd) name = None) \<and>
   (\<forall>s r st'. parse st s = Inr (r, st') \<longrightarrow>
      (vars st' = vars st \<or> (\<exists>name b. vars st' = (vars st)(name := Some b)))) \<and>
   (\<forall>s r st' name. parse st s = Inr (r, st') \<and> vars st name \<noteq> None \<longrightarrow>
      vars st' name \<noteq> None) \<and>
   value_of (then_parse (parse st ''x = 5'') ''x + 1'') =
     Inr \<lparr>pr_value = 6, pr_string = ''x + 1''\<rparr>"
proof -
  have 1: "\<forall>rnd name. vars (init_state rnd) name = None"
    by (simp add: init_state_def)
  have 2: "\<forall>s r st'. parse st s = Inr (r, st') \<longrightarrow>
      (vars st' = vars st \<or> (\<exists>name b. vars st' = (vars st)(name := Some b)))"
    using parse_vars by blast
  have 3: "\<forall>s r st' name. parse st s = Inr (r, st') \<and> vars st name \<noteq> None \<longrightarrow>
      vars st' name \<noteq> None"
  proof (intro allI impI)
    fix s r st' name
    assume h: "parse st s = Inr (r, st') \<and> vars st name \<noteq> None"
    then have "vars st' = vars st \<or> (\<exists>n b. vars st' = (vars st)(n := Some b))"
      using parse_vars by blast
    then show "vars st' name \<noteq> None"
      using h by auto
  qed
  have 4: "value_of (then_parse (parse st ''x = 5'') ''x + 1'') =
     Inr \<lparr>pr_value = 6, pr_string = ''x + 1''\<rparr>"
    by (simp add: run)
  from 1 2 3 4 show ?thesis by blast
qed

theorem environment_shared_across_calls_witness:
  "vars \<lparr>heap = [\<lparr>r_value = IntV 5, r_string = Some ''x'', r_flag = None\<rparr>],
         vars = (\<lambda>n. if n = ''x'' then Some 0 else None), entropy = (\<lambda>i. 0),
         drawn = 0\<rparr> ''x'' \<noteq> None \<and>
   (\<exists>r st'. parse \<lparr>heap = [\<lparr>r_value = IntV 5, r_string = Some ''x'', r_flag = None\<rparr>],
         vars = (\<lambda>n. if n = ''x'' then Some 0 else None), entropy = (\<lambda>i. 0),
         drawn = 0\<rparr> ''x + 1'' = Inr (r, st') \<and> pr_value r = 6 \<and> vars st' ''x'' \<noteq> None)"
  using environment_shared_across_calls
    [of "\<lparr>heap = [\<lparr>r_value = IntV 5, r_string = Some ''x'', r_flag = None\<rparr>],
         vars = (\<lambda>n. if n = ''x'' then Some 0 else None), entropy = (\<lambda>i. 0),
         drawn = 0\<rparr>"]
  by (simp add: run)

section \<open>The text of an arithmetic expression\<close>

subsection \<open>Objects\<close>

lemma extends_refl: "extends st st"
  by (simp add: extends_def)

lemma extends_trans: "extends st st1 \<Longrightarrow> extends st1 st2 \<Longrightarrow> extends st st2"
  by (auto simp: extends_def)

lemma holds_extends: "holds st a v t \<Longrightarrow> extends st st' \<Longrightarrow> holds st' a v t"
  by (auto simp: holds_def extends_def obj_def nth_append)

lemma alloc_holds:
  "alloc st (IntV v) (Some t) fl = (a, st') \<Longrightarrow> holds st' a v t \<and> extends st st'"
  by (auto simp: alloc_def holds_def extends_def obj_def)

lemma holds_fun: "holds st a v t \<Longrightarrow> holds st a v' t' \<Longrightarrow> v' = v \<and> t' = t"
  by (auto simp: holds_def)

lemma binary_holds:
  assumes "holds st a x s" "holds st b y t"
  shows "binary f tmpl st a b =
     (case f x y of Inl e \<Rightarrow> Inl e | Inr z \<Rightarrow> Inr (alloc st (IntV z) (Some (tmpl s t)) None))"
  using assms by (auto simp: binary_def holds_def fmt_def split: sum.splits)

lemma unary_holds:
  assumes "holds st a x s"
  shows "unary f tmpl st a = Inr (alloc st (IntV (f x)) (Some (tmpl s)) None)"
  using assms by (simp add: unary_def holds_def fmt_def)

lemma brackets_holds:
  assumes "holds st a x s"
  shows "brackets st a = Inr (alloc st (IntV x) (Some (''('' @ s @ '')'')) None)"
  using assms by (simp add: brackets_def holds_def fmt_def)

subsection \<open>Decimal numbers\<close>

lemma digit_char_props:
  assumes "n < 10"
  shows "is_digit (digit_char n) \<and> digit_val (digit_char n) = n"
proof -
  have ten: "(10::nat) = Suc (Suc (Suc (Suc (Suc (Suc (Suc (Suc (Suc (Suc 0)))))))))"
    by simp
  from assms show ?thesis
    unfolding ten
    by (auto simp: less_Suc_eq digit_char_def is_digit_def digit_val_def)
qed

lemma str_nat_digits: "digits (str_nat n)"
proof (induction n rule: str_nat.induct)
  case (1 n)
  show ?case
  proof (cases "n < 10")
    case True
    then show ?thesis
      using digit_char_props [of n] by (simp add: str_nat.simps [of n] digits_def)
  next
    case False
    then show ?thesis
      using 1 digit_char_props [of "n mod 10"]
      by (simp add: str_nat.simps [of n] digits_def)
  qed
qed

lemma int_of_digits_str_nat: "int_of_digits (str_nat n) = n"
proof (induction n rule: str_nat.induct)
  case (1 n)
  show ?case
  proof (cases "n < 10")
    case True
    then show ?thesis
      using digit_char_props [of n] by (simp add: str_nat.simps [of n] int_of_digits_def)
  next
    case False
    then show ?thesis
      using 1 digit_char_props [of "n mod 10"]
      by (simp add: str_nat.simps [of n] int_of_digits_snoc)
  qed
qed

lemma str_int_nat: "str_int (int n) = str_nat n"
  by (simp add: str_int_def)

lemma str_nat_length: "0 < length (str_nat n)"
  using str_nat_digits [of n] by (simp add: digits_def)


subsection \<open>Tokens of a text\<close>

lemma follows_weaken: "follows stop rest la \<Longrightarrow> set stop \<subseteq> set stop' \<Longrightarrow> follows stop' rest la"
  by (auto simp: follows_def)

lemma next_token_symbol:
  "MINUS \<in> set acc \<Longrightarrow> next_token acc (CHR ''-'' # s) = Inr ((MINUS, ''-''), s)"
  "LPAR \<in> set acc \<Longrightarrow> next_token acc (CHR ''('' # s) = Inr ((LPAR, ''(''), s)"
  "RPAR \<in> set acc \<Longrightarrow> next_token acc (CHR '')'' # s) = Inr ((RPAR, '')''), s)"
  "PLUS \<in> set acc \<Longrightarrow> next_token acc (CHR ''+'' # s) = Inr ((PLUS, ''+''), s)"
  "STAR \<in> set acc \<Longrightarrow> next_token acc (CHR ''*'' # s) = Inr ((STAR, ''*''), s)"
  "SLASH \<in> set acc \<Longrightarrow> next_token acc (CHR ''/'' # s) = Inr ((SLASH, ''/''), s)"
  by (simp_all add: next_token_def char_defs)

lemma next_token_space: "next_token acc (CHR '' '' # s) = next_token acc s"
  by (simp add: next_token_def is_ws_def)

lemma no_digit_symbols [simp]:
  "\<not> starts_digit (CHR ''-'' # s)" "\<not> starts_digit (CHR ''('' # s)"
  "\<not> starts_digit (CHR '')'' # s)" "\<not> starts_digit (CHR ''+'' # s)"
  "\<not> starts_digit (CHR ''*'' # s)" "\<not> starts_digit (CHR ''/'' # s)"
  by (simp_all add: starts_digit_def is_digit_def)

lemma acc_members [simp]:
  "NUMBER \<in> set first_atom" "MINUS \<in> set first_atom" "LPAR \<in> set first_atom"
  "NUMBER \<in> set first_dice" "MINUS \<in> set first_dice" "LPAR \<in> set first_dice"
  "RPAR \<in> set after_atom" "PLUS \<in> set after_atom" "MINUS \<in> set after_atom"
  "STAR \<in> set after_atom" "SLASH \<in> set after_atom"
  by (simp_all add: acc_defs)

subsection \<open>Reading a text again\<close>

lemma reads_number:
  assumes len: "length (str_nat n) \<le> max_str_digits"
  shows "reads (p_atom (Suc F)) after_atom (int n) (str_nat n)"
  unfolding reads_def
proof (intro allI impI)
  fix st acc rest la
  assume h: "(acc = first_atom \<or> acc = first_dice) \<and> follows after_atom rest la"
  then have la: "next_token after_atom rest = Inr la" and nd: "\<not> starts_digit rest"
    by (auto simp: follows_def)
  from h have acc: "NUMBER \<in> set acc" by auto
  have tok: "next_token acc (str_nat n @ rest) = Inr ((NUMBER, str_nat n), rest)"
    by (rule next_token_number [OF str_nat_digits nd acc])
  obtain a st' where al: "alloc st (IntV (int n)) (Some (str_nat n)) None = (a, st')"
    by (metis surj_pair)
  have p: "p_atom (Suc F) st ((NUMBER, str_nat n), rest) = Inr (a, la, st')"
    using la al number_short [OF str_nat_digits len, of st]
    by (simp add: and_then_def int_of_digits_str_nat)
  show "\<exists>inp0 a st'. next_token acc (str_nat n @ rest) = Inr inp0 \<and>
           fst (fst inp0) \<in> set [NUMBER, MINUS, LPAR] \<and>
           p_atom (Suc F) st inp0 = Inr (a, la, st') \<and> holds st' a (int n) (str_nat n) \<and>
           extends st st'"
    using tok p alloc_holds [OF al] by auto
qed

lemma reads_neg:
  assumes "reads (p_atom F) after_atom v t"
  shows "reads (p_atom (Suc F)) after_atom (- v) (CHR ''-'' # t)"
  unfolding reads_def
proof (intro allI impI)
  fix st acc rest la
  assume h: "(acc = first_atom \<or> acc = first_dice) \<and> follows after_atom rest la"
  then have acc: "MINUS \<in> set acc" by auto
  have tok: "next_token acc ((CHR ''-'' # t) @ rest) = Inr ((MINUS, ''-''), t @ rest)"
    using next_token_symbol(1) [OF acc] by simp
  from assms h obtain inp0 a st1 where
    t0: "next_token first_atom (t @ rest) = Inr inp0" and
    p0: "p_atom F st inp0 = Inr (a, la, st1)" and
    h0: "holds st1 a v t" and e0: "extends st st1"
    unfolding reads_def by blast
  obtain b st2 where al: "alloc st1 (IntV (- v)) (Some (''-'' @ t)) None = (b, st2)"
    by (metis surj_pair)
  have n: "neg st1 a = Inr (b, st2)"
    using unary_holds [OF h0] al by (simp add: neg_def)
  have p: "p_atom (Suc F) st ((MINUS, ''-''), t @ rest) = Inr (b, la, st2)"
    using t0 p0 n by (simp add: and_then_def)
  have "holds st2 b (- v) (CHR ''-'' # t) \<and> extends st st2"
    using alloc_holds [OF al] e0 extends_trans by auto
  then show "\<exists>inp0 a st'. next_token acc ((CHR ''-'' # t) @ rest) = Inr inp0 \<and>
           fst (fst inp0) \<in> set [NUMBER, MINUS, LPAR] \<and>
           p_atom (Suc F) st inp0 = Inr (a, la, st') \<and> holds st' a (- v) (CHR ''-'' # t) \<and>
           extends st st'"
    using tok p by auto
qed

lemma reads_brackets:
  assumes "reads (p_sum (p_atom F) F) stop_sum v t"
  shows "reads (p_atom (Suc F)) after_atom v (''('' @ t @ '')'')"
  unfolding reads_def
proof (intro allI impI)
  fix st acc rest la
  assume h: "(acc = first_atom \<or> acc = first_dice) \<and> follows after_atom rest la"
  then have acc: "LPAR \<in> set acc" by auto
  from h have la: "next_token after_atom rest = Inr la" by (simp add: follows_def)
  have tok: "next_token acc ((''('' @ t @ '')'') @ rest) = Inr ((LPAR, ''(''), t @ CHR '')'' # rest)"
    using next_token_symbol(2) [OF acc] by simp
  have f: "follows stop_sum (CHR '')'' # rest) ((RPAR, '')''), rest)"
    by (simp add: follows_def next_token_symbol stop_sum_def)
  from assms f obtain inp0 a st1 where
    t0: "next_token first_dice (t @ CHR '')'' # rest) = Inr inp0" and
    p0: "p_sum (p_atom F) F st inp0 = Inr (a, ((RPAR, '')''), rest), st1)" and
    h0: "holds st1 a v t" and e0: "extends st st1"
    unfolding reads_def by blast
  obtain b st2 where al: "alloc st1 (IntV v) (Some (''('' @ t @ '')'')) None = (b, st2)"
    by (metis surj_pair)
  have n: "brackets st1 a = Inr (b, st2)"
    using brackets_holds [OF h0] al by simp
  have p: "p_atom (Suc F) st ((LPAR, ''(''), t @ CHR '')'' # rest) = Inr (b, la, st2)"
    using t0 p0 n la by (simp add: and_then_def)
  have "holds st2 b v (''('' @ t @ '')'') \<and> extends st st2"
    using alloc_holds [OF al] e0 extends_trans by auto
  then show "\<exists>inp0 a st'. next_token acc ((''('' @ t @ '')'') @ rest) = Inr inp0 \<and>
           fst (fst inp0) \<in> set [NUMBER, MINUS, LPAR] \<and>
           p_atom (Suc F) st inp0 = Inr (a, la, st') \<and> holds st' a v (''('' @ t @ '')'') \<and>
           extends st st'"
    using tok p by auto
qed


lemma reads_dice:
  assumes "reads atom after_atom v t"
  shows "reads (p_dice atom) follow_dice v t"
  unfolding reads_def
proof (intro allI impI)
  fix st acc rest la
  assume h: "(acc = first_atom \<or> acc = first_dice) \<and> follows follow_dice rest la"
  then have f: "follows after_atom rest la"
    by (auto intro: follows_weaken simp: acc_defs)
  from h have stop: "fst (fst la) \<in> set follow_dice" by (simp add: follows_def)
  from assms h f obtain inp0 a st1 where
    t0: "next_token acc (t @ rest) = Inr inp0" and
    k0: "fst (fst inp0) \<in> set [NUMBER, MINUS, LPAR]" and
    p0: "atom st inp0 = Inr (a, la, st1)" and
    h0: "holds st1 a v t" and e0: "extends st st1"
    unfolding reads_def by blast
  have tail: "p_dice_tail atom st1 a la = Inr (a, la, st1)"
    using stop by (cases la) (auto simp: p_dice_tail_def follow_dice_def)
  have "p_dice atom st inp0 = Inr (a, la, st1)"
    using k0 p0 tail by (cases inp0) (auto simp: p_dice_def and_then_def)
  then show "\<exists>inp0 a st'. next_token acc (t @ rest) = Inr inp0 \<and>
           fst (fst inp0) \<in> set [NUMBER, MINUS, LPAR] \<and>
           p_dice atom st inp0 = Inr (a, la, st') \<and> holds st' a v t \<and> extends st st'"
    using t0 k0 h0 e0 by blast
qed

lemma continues_product_nil:
  "continues (p_product_loop atom (Suc f)) follow_dice stop_product v v []"
  unfolding continues_def
proof (intro allI impI)
  fix rest la
  assume h: "follows stop_product rest la"
  then have f: "follows follow_dice ([] @ rest) la"
    by (auto intro: follows_weaken simp: acc_defs stop_product_def)
  from h have stop: "fst (fst la) \<noteq> STAR \<and> fst (fst la) \<noteq> SLASH"
    by (auto simp: follows_def stop_product_def)
  have lp: "p_product_loop atom (Suc f) st a la = Inr (a, la, st)" for st a
    using stop by (cases la) auto
  have "follows follow_dice ([] @ rest) la \<and>
           (\<forall>st a t. holds st a v t \<longrightarrow>
              (\<exists>r st'. p_product_loop atom (Suc f) st a la = Inr (r, la, st') \<and>
                 holds st' r v (t @ []) \<and> extends st st'))"
    using f extends_refl by (simp add: lp del: p_product_loop.simps)
  then show "\<exists>inp0. follows follow_dice ([] @ rest) inp0 \<and>
           (\<forall>st a t. holds st a v t \<longrightarrow>
              (\<exists>r st'. p_product_loop atom (Suc f) st a inp0 = Inr (r, la, st') \<and>
                 holds st' r v (t @ []) \<and> extends st st'))"
    by (rule exI)
qed

lemma continues_sum_nil:
  "continues (p_sum_loop atom (Suc f)) stop_product stop_sum v v []"
  unfolding continues_def
proof (intro allI impI)
  fix rest la
  assume h: "follows stop_sum rest la"
  then have f: "follows stop_product ([] @ rest) la"
    by (auto intro: follows_weaken simp: stop_sum_def stop_product_def)
  from h have stop: "fst (fst la) \<noteq> PLUS \<and> fst (fst la) \<noteq> MINUS"
    by (auto simp: follows_def stop_sum_def)
  have lp: "p_sum_loop atom (Suc f) st a la = Inr (a, la, st)" for st a
    using stop by (cases la) auto
  have "follows stop_product ([] @ rest) la \<and>
           (\<forall>st a t. holds st a v t \<longrightarrow>
              (\<exists>r st'. p_sum_loop atom (Suc f) st a la = Inr (r, la, st') \<and>
                 holds st' r v (t @ []) \<and> extends st st'))"
    using f extends_refl by (simp add: lp del: p_sum_loop.simps)
  then show "\<exists>inp0. follows stop_product ([] @ rest) inp0 \<and>
           (\<forall>st a t. holds st a v t \<longrightarrow>
              (\<exists>r st'. p_sum_loop atom (Suc f) st a inp0 = Inr (r, la, st') \<and>
                 holds st' r v (t @ []) \<and> extends st st'))"
    by (rule exI)
qed

lemma continues_product_step:
  assumes op: "(c = CHR ''*'' \<and> tk = STAR \<and> w = v * vb) \<or>
               (c = CHR ''/'' \<and> tk = SLASH \<and> vb \<noteq> 0 \<and> w = v div vb)"
    and rd: "reads (p_dice atom) follow_dice vb tb"
    and ct: "continues (p_product_loop atom f) follow_dice stop_product w v' sfx"
  shows "continues (p_product_loop atom (Suc f)) follow_dice stop_product v v'
           (CHR '' '' # c # CHR '' '' # tb @ sfx)"
  unfolding continues_def
proof (intro allI impI)
  fix rest la
  assume h: "follows stop_product rest la"
  from ct h obtain inp1 where
    f1: "follows follow_dice (sfx @ rest) inp1" and
    l1: "\<And>st a t. holds st a w t \<Longrightarrow>
          \<exists>r st'. p_product_loop atom f st a inp1 = Inr (r, la, st') \<and>
             holds st' r v' (t @ sfx) \<and> extends st st'"
    unfolding continues_def by blast
  let ?sfx = "CHR '' '' # c # CHR '' '' # tb @ sfx"
  have tok: "next_token after_atom (?sfx @ rest) = Inr ((tk, [c]), CHR '' '' # tb @ sfx @ rest)"
    using op by (auto simp: next_token_space next_token_symbol)
  have f0: "follows follow_dice (?sfx @ rest) ((tk, [c]), CHR '' '' # tb @ sfx @ rest)"
    using tok op by (auto simp: follows_def follow_dice_def)
  have "\<exists>r st'. p_product_loop atom (Suc f) st a ((tk, [c]), CHR '' '' # tb @ sfx @ rest) =
            Inr (r, la, st') \<and> holds st' r v' (t @ ?sfx) \<and> extends st st'"
    if ha: "holds st a v t" for st a t
  proof -
    from rd f1 obtain inp0 b st1 where
      t0: "next_token first_dice (tb @ sfx @ rest) = Inr inp0" and
      p0: "p_dice atom st inp0 = Inr (b, inp1, st1)" and
      h0: "holds st1 b vb tb" and e0: "extends st st1"
      unfolding reads_def by blast
    have ha1: "holds st1 a v t" using holds_extends [OF ha e0] .
    obtain d st2 where al: "alloc st1 (IntV w) (Some (t @ CHR '' '' # c # CHR '' '' # tb)) None = (d, st2)"
      by (metis surj_pair)
    have m: "(if tk = STAR then mul else div_action) st1 a b = Inr (d, st2)"
      using op al binary_holds [OF ha1 h0]
      by (auto simp: mul_def div_action_def floordiv_def)
    have hd: "holds st2 d w (t @ CHR '' '' # c # CHR '' '' # tb)" and e1: "extends st1 st2"
      using alloc_holds [OF al] by auto
    from l1 [OF hd] obtain r st' where
      l: "p_product_loop atom f st2 d inp1 = Inr (r, la, st')" and
      hr: "holds st' r v' ((t @ CHR '' '' # c # CHR '' '' # tb) @ sfx)" and e2: "extends st2 st'"
      by blast
    have "p_product_loop atom (Suc f) st a ((tk, [c]), CHR '' '' # tb @ sfx @ rest) = Inr (r, la, st')"
      using op t0 p0 m l by (auto simp: and_then_def next_token_space)
    moreover have "extends st st'"
      using e0 e1 e2 extends_trans by blast
    ultimately show ?thesis using hr by auto
  qed
  then show "\<exists>inp0. follows follow_dice (?sfx @ rest) inp0 \<and>
           (\<forall>st a t. holds st a v t \<longrightarrow>
              (\<exists>r st'. p_product_loop atom (Suc f) st a inp0 = Inr (r, la, st') \<and>
                 holds st' r v' (t @ ?sfx) \<and> extends st st'))"
    using f0 by blast
qed

lemma reads_product:
  assumes rd: "reads (p_dice atom) follow_dice v0 t0"
    and ct: "continues (p_product_loop atom f) follow_dice stop_product v0 v sfx"
  shows "reads (p_product atom f) stop_product v (t0 @ sfx)"
  unfolding reads_def
proof (intro allI impI)
  fix st acc rest la
  assume h: "(acc = first_atom \<or> acc = first_dice) \<and> follows stop_product rest la"
  from ct h obtain inp1 where
    f1: "follows follow_dice (sfx @ rest) inp1" and
    l1: "\<And>st a t. holds st a v0 t \<Longrightarrow>
          \<exists>r st'. p_product_loop atom f st a inp1 = Inr (r, la, st') \<and>
             holds st' r v (t @ sfx) \<and> extends st st'"
    unfolding continues_def by blast
  from rd h f1 obtain inp0 a st1 where
    t0: "next_token acc (t0 @ sfx @ rest) = Inr inp0" and
    k0: "fst (fst inp0) \<in> set [NUMBER, MINUS, LPAR]" and
    p0: "p_dice atom st inp0 = Inr (a, inp1, st1)" and
    h0: "holds st1 a v0 t0" and e0: "extends st st1"
    unfolding reads_def by blast
  from l1 [OF h0] obtain r st' where
    l: "p_product_loop atom f st1 a inp1 = Inr (r, la, st')" and
    hr: "holds st' r v (t0 @ sfx)" and e1: "extends st1 st'"
    by blast
  have "p_product atom f st inp0 = Inr (r, la, st')"
    using p0 l by (simp add: p_product_def and_then_def)
  moreover have "extends st st'" using e0 e1 extends_trans by blast
  ultimately show "\<exists>inp0 a st'. next_token acc ((t0 @ sfx) @ rest) = Inr inp0 \<and>
           fst (fst inp0) \<in> set [NUMBER, MINUS, LPAR] \<and>
           p_product atom f st inp0 = Inr (a, la, st') \<and> holds st' a v (t0 @ sfx) \<and>
           extends st st'"
    using t0 k0 hr by auto
qed


lemma continues_sum_step:
  assumes op: "(c = CHR ''+'' \<and> tk = PLUS \<and> w = v + vb) \<or>
               (c = CHR ''-'' \<and> tk = MINUS \<and> w = v - vb)"
    and rd: "reads (p_product atom f) stop_product vb tb"
    and ct: "continues (p_sum_loop atom f) stop_product stop_sum w v' sfx"
  shows "continues (p_sum_loop atom (Suc f)) stop_product stop_sum v v'
           (CHR '' '' # c # CHR '' '' # tb @ sfx)"
  unfolding continues_def
proof (intro allI impI)
  fix rest la
  assume h: "follows stop_sum rest la"
  from ct h obtain inp1 where
    f1: "follows stop_product (sfx @ rest) inp1" and
    l1: "\<And>st a t. holds st a w t \<Longrightarrow>
          \<exists>r st'. p_sum_loop atom f st a inp1 = Inr (r, la, st') \<and>
             holds st' r v' (t @ sfx) \<and> extends st st'"
    unfolding continues_def by blast
  let ?sfx = "CHR '' '' # c # CHR '' '' # tb @ sfx"
  have tok: "next_token after_atom (?sfx @ rest) = Inr ((tk, [c]), CHR '' '' # tb @ sfx @ rest)"
    using op by (auto simp: next_token_space next_token_symbol)
  have f0: "follows stop_product (?sfx @ rest) ((tk, [c]), CHR '' '' # tb @ sfx @ rest)"
    using tok op by (auto simp: follows_def stop_product_def)
  have "\<exists>r st'. p_sum_loop atom (Suc f) st a ((tk, [c]), CHR '' '' # tb @ sfx @ rest) =
            Inr (r, la, st') \<and> holds st' r v' (t @ ?sfx) \<and> extends st st'"
    if ha: "holds st a v t" for st a t
  proof -
    from rd f1 obtain inp0 b st1 where
      t0: "next_token first_dice (tb @ sfx @ rest) = Inr inp0" and
      p0: "p_product atom f st inp0 = Inr (b, inp1, st1)" and
      h0: "holds st1 b vb tb" and e0: "extends st st1"
      unfolding reads_def by blast
    have ha1: "holds st1 a v t" using holds_extends [OF ha e0] .
    obtain d st2 where al: "alloc st1 (IntV w) (Some (t @ CHR '' '' # c # CHR '' '' # tb)) None = (d, st2)"
      by (metis surj_pair)
    have m: "(if tk = PLUS then add else sub) st1 a b = Inr (d, st2)"
      using op al binary_holds [OF ha1 h0]
      by (auto simp: add_def sub_def)
    have hd: "holds st2 d w (t @ CHR '' '' # c # CHR '' '' # tb)" and e1: "extends st1 st2"
      using alloc_holds [OF al] by auto
    from l1 [OF hd] obtain r st' where
      l: "p_sum_loop atom f st2 d inp1 = Inr (r, la, st')" and
      hr: "holds st' r v' ((t @ CHR '' '' # c # CHR '' '' # tb) @ sfx)" and e2: "extends st2 st'"
      by blast
    have "p_sum_loop atom (Suc f) st a ((tk, [c]), CHR '' '' # tb @ sfx @ rest) = Inr (r, la, st')"
      using op t0 p0 m l by (auto simp: and_then_def next_token_space)
    moreover have "extends st st'"
      using e0 e1 e2 extends_trans by blast
    ultimately show ?thesis using hr by auto
  qed
  then show "\<exists>inp0. follows stop_product (?sfx @ rest) inp0 \<and>
           (\<forall>st a t. holds st a v t \<longrightarrow>
              (\<exists>r st'. p_sum_loop atom (Suc f) st a inp0 = Inr (r, la, st') \<and>
                 holds st' r v' (t @ ?sfx) \<and> extends st st'))"
    using f0 by blast
qed

lemma reads_sum:
  assumes rd: "reads (p_product atom f) stop_product v0 t0"
    and ct: "continues (p_sum_loop atom f) stop_product stop_sum v0 v sfx"
  shows "reads (p_sum atom f) stop_sum v (t0 @ sfx)"
  unfolding reads_def
proof (intro allI impI)
  fix st acc rest la
  assume h: "(acc = first_atom \<or> acc = first_dice) \<and> follows stop_sum rest la"
  from ct h obtain inp1 where
    f1: "follows stop_product (sfx @ rest) inp1" and
    l1: "\<And>st a t. holds st a v0 t \<Longrightarrow>
          \<exists>r st'. p_sum_loop atom f st a inp1 = Inr (r, la, st') \<and>
             holds st' r v (t @ sfx) \<and> extends st st'"
    unfolding continues_def by blast
  from rd h f1 obtain inp0 a st1 where
    t0: "next_token acc (t0 @ sfx @ rest) = Inr inp0" and
    k0: "fst (fst inp0) \<in> set [NUMBER, MINUS, LPAR]" and
    p0: "p_product atom f st inp0 = Inr (a, inp1, st1)" and
    h0: "holds st1 a v0 t0" and e0: "extends st st1"
    unfolding reads_def by blast
  from l1 [OF h0] obtain r st' where
    l: "p_sum_loop atom f st1 a inp1 = Inr (r, la, st')" and
    hr: "holds st' r v (t0 @ sfx)" and e1: "extends st1 st'"
    by blast
  have "p_sum atom f st inp0 = Inr (r, la, st')"
    using p0 l by (simp add: p_sum_def and_then_def)
  moreover have "extends st st'" using e0 e1 extends_trans by blast
  ultimately show "\<exists>inp0 a st'. next_token acc ((t0 @ sfx) @ rest) = Inr inp0 \<and>
           fst (fst inp0) \<in> set [NUMBER, MINUS, LPAR] \<and>
           p_sum atom f st inp0 = Inr (a, la, st') \<and> holds st' a v (t0 @ sfx) \<and>
           extends st st'"
    using t0 k0 hr by auto
qed

subsection \<open>Texts at every recursion bound\<close>

lemma atom_text_number:
  assumes len: "length (str_nat n) \<le> max_str_digits"
  shows "atom_text (int n) (str_nat n)"
  unfolding atom_text_def
proof (intro allI impI)
  fix F assume "length (str_nat n) \<le> F"
  then obtain F' where "F = Suc F'"
    using str_nat_length [of n] by (cases F) auto
  then show "reads (p_atom F) after_atom (int n) (str_nat n)"
    using reads_number [OF len] by simp
qed

lemma atom_text_neg:
  assumes "atom_text v t"
  shows "atom_text (- v) (CHR ''-'' # t)"
  unfolding atom_text_def
proof (intro allI impI)
  fix F assume "length (CHR ''-'' # t) \<le> F"
  then obtain F' where F: "F = Suc F'" "length t \<le> F'"
    by (cases F) auto
  then have "reads (p_atom F') after_atom v t"
    using assms by (simp add: atom_text_def)
  then show "reads (p_atom F) after_atom (- v) (CHR ''-'' # t)"
    using reads_neg F by simp
qed

lemma atom_text_brackets:
  assumes "sum_text v t"
  shows "atom_text v (''('' @ t @ '')'')"
  unfolding atom_text_def
proof (intro allI impI)
  fix F assume "length (''('' @ t @ '')'') \<le> F"
  then obtain F' where F: "F = Suc F'" "length t < F'"
    by (cases F) auto
  then have "reads (p_sum (p_atom F') F') stop_sum v t"
    using assms by (simp add: sum_text_def)
  then show "reads (p_atom F) after_atom v (''('' @ t @ '')'')"
    using reads_brackets F by simp
qed

lemma product_rest_nil: "product_rest v v []"
  unfolding product_rest_def
proof (intro allI impI)
  fix F f :: nat assume "length ([] :: string) \<le> F \<and> length ([] :: string) < f"
  then obtain f' where "f = Suc f'" by (cases f) auto
  then show "continues (p_product_loop (p_atom F) f) follow_dice stop_product v v []"
    using continues_product_nil by simp
qed

lemma product_rest_step:
  assumes op: "(c = CHR ''*'' \<and> w = v * vb) \<or> (c = CHR ''/'' \<and> vb \<noteq> 0 \<and> w = v div vb)"
    and a: "atom_text vb tb" and r: "product_rest w v' sfx"
  shows "product_rest v v' (CHR '' '' # c # CHR '' '' # tb @ sfx)"
  unfolding product_rest_def
proof (intro allI impI)
  fix F f
  assume h: "length (CHR '' '' # c # CHR '' '' # tb @ sfx) \<le> F \<and>
             length (CHR '' '' # c # CHR '' '' # tb @ sfx) < f"
  then obtain f' where f: "f = Suc f'" "length sfx < f'" by (cases f) auto
  from h have F: "length tb \<le> F" "length sfx \<le> F" by auto
  have rd: "reads (p_dice (p_atom F)) follow_dice vb tb"
    using a F by (simp add: atom_text_def reads_dice)
  have ct: "continues (p_product_loop (p_atom F) f') follow_dice stop_product w v' sfx"
    using r F f by (simp add: product_rest_def)
  obtain tk where "(c = CHR ''*'' \<and> tk = STAR \<and> w = v * vb) \<or>
               (c = CHR ''/'' \<and> tk = SLASH \<and> vb \<noteq> 0 \<and> w = v div vb)"
    using op by auto
  then show "continues (p_product_loop (p_atom F) f) follow_dice stop_product v v'
           (CHR '' '' # c # CHR '' '' # tb @ sfx)"
    using continues_product_step [OF _ rd ct] f by simp
qed

lemma product_text_intro:
  assumes a: "atom_text v0 t0" and r: "product_rest v0 v sfx"
  shows "product_text v (t0 @ sfx)"
  unfolding product_text_def
proof (intro allI impI)
  fix F f
  assume h: "length (t0 @ sfx) \<le> F \<and> length (t0 @ sfx) < f"
  have rd: "reads (p_dice (p_atom F)) follow_dice v0 t0"
    using a h by (simp add: atom_text_def reads_dice)
  have ct: "continues (p_product_loop (p_atom F) f) follow_dice stop_product v0 v sfx"
    using r h by (simp add: product_rest_def)
  show "reads (p_product (p_atom F) f) stop_product v (t0 @ sfx)"
    by (rule reads_product [OF rd ct])
qed

lemma sum_rest_nil: "sum_rest v v []"
  unfolding sum_rest_def
proof (intro allI impI)
  fix F f :: nat assume "length ([] :: string) \<le> F \<and> length ([] :: string) < f"
  then obtain f' where "f = Suc f'" by (cases f) auto
  then show "continues (p_sum_loop (p_atom F) f) stop_product stop_sum v v []"
    using continues_sum_nil by simp
qed

lemma sum_rest_step:
  assumes op: "(c = CHR ''+'' \<and> w = v + vb) \<or> (c = CHR ''-'' \<and> w = v - vb)"
    and a: "product_text vb tb" and r: "sum_rest w v' sfx"
  shows "sum_rest v v' (CHR '' '' # c # CHR '' '' # tb @ sfx)"
  unfolding sum_rest_def
proof (intro allI impI)
  fix F f
  assume h: "length (CHR '' '' # c # CHR '' '' # tb @ sfx) \<le> F \<and>
             length (CHR '' '' # c # CHR '' '' # tb @ sfx) < f"
  then obtain f' where f: "f = Suc f'" "length sfx < f'" "length tb < f'" by (cases f) auto
  from h have F: "length tb \<le> F" "length sfx \<le> F" by auto
  have rd: "reads (p_product (p_atom F) f') stop_product vb tb"
    using a F f by (simp add: product_text_def)
  have ct: "continues (p_sum_loop (p_atom F) f') stop_product stop_sum w v' sfx"
    using r F f by (simp add: sum_rest_def)
  obtain tk where "(c = CHR ''+'' \<and> tk = PLUS \<and> w = v + vb) \<or>
               (c = CHR ''-'' \<and> tk = MINUS \<and> w = v - vb)"
    using op by auto
  then show "continues (p_sum_loop (p_atom F) f) stop_product stop_sum v v'
           (CHR '' '' # c # CHR '' '' # tb @ sfx)"
    using continues_sum_step [OF _ rd ct] f by simp
qed

lemma sum_text_intro:
  assumes a: "product_text v0 t0" and r: "sum_rest v0 v sfx"
  shows "sum_text v (t0 @ sfx)"
  unfolding sum_text_def
proof (intro allI impI)
  fix F f
  assume h: "length (t0 @ sfx) \<le> F \<and> length (t0 @ sfx) < f"
  have rd: "reads (p_product (p_atom F) f) stop_product v0 t0"
    using a h by (simp add: product_text_def)
  have ct: "continues (p_sum_loop (p_atom F) f) stop_product stop_sum v0 v sfx"
    using r h by (simp add: sum_rest_def)
  show "reads (p_sum (p_atom F) f) stop_sum v (t0 @ sfx)"
    by (rule reads_sum [OF rd ct])
qed


subsection \<open>What the parser returns\<close>

lemma soundD:
  "sound p T \<Longrightarrow> arithmetic_input inp \<Longrightarrow> p st inp = Inr (a, inp', st') \<Longrightarrow>
   arithmetic_input inp' \<and> extends st st' \<and> (\<exists>v t. holds st' a v t \<and> T v t)"
  unfolding sound_def by blast

lemma arithmetic_char_cases:
  assumes "arithmetic_char c" "\<not> is_ws c" "\<not> is_digit c"
  shows "\<not> is_name_char c \<and>
         literal c \<in> Some ` set [PLUS, MINUS, STAR, SLASH, LPAR, RPAR]"
  using assms by (auto simp: arithmetic_char_def literal_def is_name_char_def)

lemma next_token_arithmetic:
  assumes "arithmetic s" "next_token acc s = Inr inp"
  shows "arithmetic_input inp"
proof (cases "dropWhile is_ws s")
  case Nil
  have "(if END \<in> set acc then Inr ((END, []), []) else Inl SyntaxError) = Inr inp"
    using assms(2) unfolding next_token_def Nil by simp
  then show ?thesis
    by (auto simp: arithmetic_input_def arithmetic_def split: if_splits)
next
  case (Cons c cs)
  have sub: "set (c # cs) \<subseteq> set s"
    using set_dropWhileD [of _ is_ws s] Cons by auto
  then have ar: "arithmetic (c # cs)"
    using assms(1) by (auto simp: arithmetic_def)
  have nws: "\<not> is_ws c"
    using Cons hd_dropWhile [of is_ws s] by auto
  show ?thesis
  proof (cases "is_digit c")
    case True
    have "arithmetic (dropWhile is_digit cs)"
      using ar set_dropWhileD [of _ is_digit cs] by (auto simp: arithmetic_def)
    then show ?thesis
      using assms(2) Cons True
      by (auto simp: next_token_def arithmetic_input_def split: if_splits)
  next
    case False
    have c: "arithmetic_char c" using ar by (simp add: arithmetic_def)
    have cs: "arithmetic cs" using ar by (simp add: arithmetic_def)
    from arithmetic_char_cases [OF c nws False]
    show ?thesis
      using assms(2) Cons False cs
      by (auto simp: next_token_def arithmetic_input_def split: if_splits option.splits)
  qed
qed

lemma sound_dice:
  assumes "sound atom T"
  shows "sound (p_dice atom) T"
  unfolding sound_def
proof (intro allI impI)
  fix st inp a inp' st'
  assume h: "arithmetic_input inp \<and> p_dice atom st inp = Inr (a, inp', st')"
  obtain t lx rest where inp: "inp = ((t, lx), rest)" by (metis surj_pair)
  from h have nd: "t \<noteq> KW_D" by (auto simp: inp arithmetic_input_def)
  then obtain b inp1 st1 where
    p: "atom st inp = Inr (b, inp1, st1)" and
    tl: "p_dice_tail atom st1 b inp1 = Inr (a, inp', st')"
    using h by (auto simp: inp p_dice_def and_then_Inr)
  note s = soundD [OF assms _ p]
  have ai: "arithmetic_input inp1" using s h by blast
  obtain t1 lx1 rest1 where inp1: "inp1 = ((t1, lx1), rest1)" by (metis surj_pair)
  have "t1 \<noteq> KW_D" using ai by (auto simp: inp1 arithmetic_input_def)
  then have "a = b \<and> inp' = inp1 \<and> st' = st1"
    using tl by (auto simp: inp1 p_dice_tail_def split: if_splits)
  then show "arithmetic_input inp' \<and> extends st st' \<and> (\<exists>v t. holds st' a v t \<and> T v t)"
    using s h by blast
qed

lemma binary_result:
  assumes "holds st a x s" "holds st b y t" "binary f tmpl st a b = Inr (c, st')"
  shows "\<exists>z. f x y = Inr z \<and> holds st' c z (tmpl s t) \<and> extends st st'"
proof -
  from assms(3) binary_holds [OF assms(1,2), of f tmpl]
  obtain z where z: "f x y = Inr z" and al: "alloc st (IntV z) (Some (tmpl s t)) None = (c, st')"
    by (auto split: sum.splits)
  show ?thesis using z alloc_holds [OF al] by blast
qed

lemma sound_product_loop:
  assumes sa: "sound atom atom_text"
  shows "holds st a v t \<Longrightarrow> arithmetic_input inp \<Longrightarrow>
         p_product_loop atom f st a inp = Inr (r, inp', st') \<Longrightarrow>
         arithmetic_input inp' \<and> extends st st' \<and>
         (\<exists>v' sfx. holds st' r v' (t @ sfx) \<and> product_rest v v' sfx)"
proof (induction f arbitrary: st a v t inp)
  case 0
  then show ?case by simp
next
  case (Suc f)
  obtain tk lx rest where inp: "inp = ((tk, lx), rest)" by (metis surj_pair)
  show ?case
  proof (cases "tk = STAR \<or> tk = SLASH")
    case False
    then have "r = a \<and> inp' = inp \<and> st' = st"
      using Suc.prems(3) by (auto simp: inp)
    then show ?thesis
      using Suc.prems(1,2) extends_refl product_rest_nil [of v]
      by (metis append_Nil2)
  next
    case True
    then obtain inp1 b inp2 st1 c st2 where
      tok: "next_token first_dice rest = Inr inp1" and
      d: "p_dice atom st inp1 = Inr (b, inp2, st1)" and
      m: "(if tk = STAR then mul else div_action) st1 a b = Inr (c, st2)" and
      l: "p_product_loop atom f st2 c inp2 = Inr (r, inp', st')"
      using Suc.prems(3) by (auto simp: inp and_then_Inr)
    have ar: "arithmetic rest" using Suc.prems(2) by (simp add: inp arithmetic_input_def)
    have ai1: "arithmetic_input inp1" using next_token_arithmetic [OF ar tok] .
    from soundD [OF sound_dice [OF sa] ai1 d] obtain vb tb where
      ai2: "arithmetic_input inp2" and e0: "extends st st1" and
      hb: "holds st1 b vb tb" and tb: "atom_text vb tb"
      by blast
    have ha: "holds st1 a v t" using holds_extends [OF Suc.prems(1) e0] .
    obtain ch w where
      op: "(ch = CHR ''*'' \<and> w = v * vb) \<or> (ch = CHR ''/'' \<and> vb \<noteq> 0 \<and> w = v div vb)" and
      hc: "holds st2 c w (t @ CHR '' '' # ch # CHR '' '' # tb)" and e1: "extends st1 st2"
    proof (cases "tk = STAR")
      case True
      then have "binary (\<lambda>x y. Inr (x * y)) (\<lambda>s t. s @ '' * '' @ t) st1 a b = Inr (c, st2)"
        using m by (simp add: mul_def)
      from binary_result [OF ha hb this] show ?thesis
        using that [of "CHR ''*''" "v * vb"] by auto
    next
      case False
      then have "binary floordiv (\<lambda>s t. s @ '' / '' @ t) st1 a b = Inr (c, st2)"
        using m by (simp add: div_action_def)
      from binary_result [OF ha hb this] show ?thesis
        using that [of "CHR ''/''" "v div vb"] by (auto simp: floordiv_def split: if_splits)
    qed
    from Suc.IH [OF hc ai2 l] obtain v' sfx where
      ai': "arithmetic_input inp'" and e2: "extends st2 st'" and
      hr: "holds st' r v' ((t @ CHR '' '' # ch # CHR '' '' # tb) @ sfx)" and
      pr: "product_rest w v' sfx"
      by blast
    have "product_rest v v' (CHR '' '' # ch # CHR '' '' # tb @ sfx)"
      by (rule product_rest_step [OF op tb pr])
    moreover have "holds st' r v' (t @ CHR '' '' # ch # CHR '' '' # tb @ sfx)"
      using hr by simp
    moreover have "extends st st'" using e0 e1 e2 extends_trans by blast
    ultimately show ?thesis using ai' by blast
  qed
qed

lemma sound_product:
  assumes sa: "sound atom atom_text"
  shows "sound (p_product atom f) product_text"
  unfolding sound_def
proof (intro allI impI)
  fix st inp a inp' st'
  assume h: "arithmetic_input inp \<and> p_product atom f st inp = Inr (a, inp', st')"
  then obtain b inp1 st1 where
    d: "p_dice atom st inp = Inr (b, inp1, st1)" and
    l: "p_product_loop atom f st1 b inp1 = Inr (a, inp', st')"
    by (auto simp: p_product_def and_then_Inr)
  from h have ai: "arithmetic_input inp" by simp
  from soundD [OF sound_dice [OF sa] ai d] obtain v0 t0 where
    ai1: "arithmetic_input inp1" and e0: "extends st st1" and
    hb: "holds st1 b v0 t0" and t0: "atom_text v0 t0"
    by blast
  from sound_product_loop [OF sa hb ai1 l] obtain v sfx where
    ai': "arithmetic_input inp'" and e1: "extends st1 st'" and
    hr: "holds st' a v (t0 @ sfx)" and pr: "product_rest v0 v sfx"
    by blast
  have "product_text v (t0 @ sfx)" by (rule product_text_intro [OF t0 pr])
  moreover have "extends st st'" using e0 e1 extends_trans by blast
  ultimately show "arithmetic_input inp' \<and> extends st st' \<and>
      (\<exists>v t. holds st' a v t \<and> product_text v t)"
    using ai' hr by blast
qed

lemma sound_sum_loop:
  assumes sa: "sound atom atom_text"
  shows "holds st a v t \<Longrightarrow> arithmetic_input inp \<Longrightarrow>
         p_sum_loop atom f st a inp = Inr (r, inp', st') \<Longrightarrow>
         arithmetic_input inp' \<and> extends st st' \<and>
         (\<exists>v' sfx. holds st' r v' (t @ sfx) \<and> sum_rest v v' sfx)"
proof (induction f arbitrary: st a v t inp)
  case 0
  then show ?case by simp
next
  case (Suc f)
  obtain tk lx rest where inp: "inp = ((tk, lx), rest)" by (metis surj_pair)
  show ?case
  proof (cases "tk = PLUS \<or> tk = MINUS")
    case False
    then have "r = a \<and> inp' = inp \<and> st' = st"
      using Suc.prems(3) by (auto simp: inp)
    then show ?thesis
      using Suc.prems(1,2) extends_refl sum_rest_nil [of v]
      by (metis append_Nil2)
  next
    case True
    then obtain inp1 b inp2 st1 c st2 where
      tok: "next_token first_dice rest = Inr inp1" and
      d: "p_product atom f st inp1 = Inr (b, inp2, st1)" and
      m: "(if tk = PLUS then add else sub) st1 a b = Inr (c, st2)" and
      l: "p_sum_loop atom f st2 c inp2 = Inr (r, inp', st')"
      using Suc.prems(3) by (auto simp: inp and_then_Inr)
    have ar: "arithmetic rest" using Suc.prems(2) by (simp add: inp arithmetic_input_def)
    have ai1: "arithmetic_input inp1" using next_token_arithmetic [OF ar tok] .
    from soundD [OF sound_product [OF sa] ai1 d] obtain vb tb where
      ai2: "arithmetic_input inp2" and e0: "extends st st1" and
      hb: "holds st1 b vb tb" and tb: "product_text vb tb"
      by blast
    have ha: "holds st1 a v t" using holds_extends [OF Suc.prems(1) e0] .
    obtain ch w where
      op: "(ch = CHR ''+'' \<and> w = v + vb) \<or> (ch = CHR ''-'' \<and> w = v - vb)" and
      hc: "holds st2 c w (t @ CHR '' '' # ch # CHR '' '' # tb)" and e1: "extends st1 st2"
    proof (cases "tk = PLUS")
      case True
      then have "binary (\<lambda>x y. Inr (x + y)) (\<lambda>s t. s @ '' + '' @ t) st1 a b = Inr (c, st2)"
        using m by (simp add: add_def)
      from binary_result [OF ha hb this] show ?thesis
        using that [of "CHR ''+''" "v + vb"] by auto
    next
      case False
      then have "binary (\<lambda>x y. Inr (x - y)) (\<lambda>s t. s @ '' - '' @ t) st1 a b = Inr (c, st2)"
        using m by (simp add: sub_def)
      from binary_result [OF ha hb this] show ?thesis
        using that [of "CHR ''-''" "v - vb"] by auto
    qed
    from Suc.IH [OF hc ai2 l] obtain v' sfx where
      ai': "arithmetic_input inp'" and e2: "extends st2 st'" and
      hr: "holds st' r v' ((t @ CHR '' '' # ch # CHR '' '' # tb) @ sfx)" and
      pr: "sum_rest w v' sfx"
      by blast
    have "sum_rest v v' (CHR '' '' # ch # CHR '' '' # tb @ sfx)"
      by (rule sum_rest_step [OF op tb pr])
    moreover have "holds st' r v' (t @ CHR '' '' # ch # CHR '' '' # tb @ sfx)"
      using hr by simp
    moreover have "extends st st'" using e0 e1 e2 extends_trans by blast
    ultimately show ?thesis using ai' by blast
  qed
qed

lemma sound_sum:
  assumes sa: "sound atom atom_text"
  shows "sound (p_sum atom f) sum_text"
  unfolding sound_def
proof (intro allI impI)
  fix st inp a inp' st'
  assume h: "arithmetic_input inp \<and> p_sum atom f st inp = Inr (a, inp', st')"
  then obtain b inp1 st1 where
    d: "p_product atom f st inp = Inr (b, inp1, st1)" and
    l: "p_sum_loop atom f st1 b inp1 = Inr (a, inp', st')"
    by (auto simp: p_sum_def and_then_Inr)
  from h have ai: "arithmetic_input inp" by simp
  from soundD [OF sound_product [OF sa] ai d] obtain v0 t0 where
    ai1: "arithmetic_input inp1" and e0: "extends st st1" and
    hb: "holds st1 b v0 t0" and t0: "product_text v0 t0"
    by blast
  from sound_sum_loop [OF sa hb ai1 l] obtain v sfx where
    ai': "arithmetic_input inp'" and e1: "extends st1 st'" and
    hr: "holds st' a v (t0 @ sfx)" and pr: "sum_rest v0 v sfx"
    by blast
  have "sum_text v (t0 @ sfx)" by (rule sum_text_intro [OF t0 pr])
  moreover have "extends st st'" using e0 e1 extends_trans by blast
  ultimately show "arithmetic_input inp' \<and> extends st st' \<and>
      (\<exists>v t. holds st' a v t \<and> sum_text v t)"
    using ai' hr by blast
qed


lemma sound_atom: "sound (p_atom f) atom_text"
proof (induction f)
  case 0
  then show ?case by (simp add: sound_def)
next
  case (Suc f)
  show ?case
    unfolding sound_def
  proof (intro allI impI)
    fix st inp a inp' st'
    assume h: "arithmetic_input inp \<and> p_atom (Suc f) st inp = Inr (a, inp', st')"
    obtain tk lx rest where inp: "inp = ((tk, lx), rest)" by (metis surj_pair)
    from h have ar: "arithmetic rest" and nn: "tk \<noteq> NAME"
      by (auto simp: inp arithmetic_input_def)
    from h have p: "p_atom (Suc f) st ((tk, lx), rest) = Inr (a, inp', st')"
      by (simp add: inp)
    consider (num) "tk = NUMBER" | (minus) "tk = MINUS" | (lpar) "tk = LPAR"
      using p nn by (auto simp: and_then_def split: if_splits)
    then show "arithmetic_input inp' \<and> extends st st' \<and>
        (\<exists>v t. holds st' a v t \<and> atom_text v t)"
    proof cases
      case num
      then obtain inp1 b st1 where
        tok1: "next_token after_atom rest = Inr inp1" and
        nb: "number st lx = Inr (b, st1)" and
        eq: "a = b \<and> inp' = inp1 \<and> st' = st1"
        using p by (auto simp: and_then_Inr)
      have tok: "next_token after_atom rest = Inr inp'"
        using tok1 eq by simp
      have len: "length (str_nat (int_of_digits lx)) \<le> max_str_digits" and
        al: "alloc st (IntV (int (int_of_digits lx))) (Some (str_nat (int_of_digits lx))) None
               = (a, st')"
        using number_returns [of st lx b st1] nb eq by simp_all
      show ?thesis
        using next_token_arithmetic [OF ar tok] alloc_holds [OF al] atom_text_number [OF len]
        by blast
    next
      case minus
      then obtain inp1 b st1 where
        tok: "next_token first_atom rest = Inr inp1" and
        q: "p_atom f st inp1 = Inr (b, inp', st1)" and
        n: "neg st1 b = Inr (a, st')"
        using p by (auto simp: and_then_Inr)
      have ai1: "arithmetic_input inp1" using next_token_arithmetic [OF ar tok] .
      from soundD [OF Suc ai1 q] obtain v t where
        ai': "arithmetic_input inp'" and e0: "extends st st1" and
        hb: "holds st1 b v t" and tt: "atom_text v t"
        by blast
      have al: "alloc st1 (IntV (- v)) (Some (''-'' @ t)) None = (a, st')"
        using n unary_holds [OF hb, of "\<lambda>x. - x" "\<lambda>s. ''-'' @ s"] by (simp add: neg_def)
      have "holds st' a (- v) (CHR ''-'' # t)" and e1: "extends st1 st'"
        using alloc_holds [OF al] by auto
      moreover have "extends st st'" using e0 e1 extends_trans by blast
      ultimately show ?thesis using ai' atom_text_neg [OF tt] by blast
    next
      case lpar
      then obtain inp1 b t1 lx1 rest1 st1 where
        tok: "next_token first_dice rest = Inr inp1" and
        q: "p_sum (p_atom f) f st inp1 = Inr (b, ((t1, lx1), rest1), st1)" and
        rp: "t1 = RPAR" and
        tok2: "next_token after_atom rest1 = Inr inp'" and
        n: "brackets st1 b = Inr (a, st')"
        using p by (auto simp: and_then_Inr split: if_splits)
      have ai1: "arithmetic_input inp1" using next_token_arithmetic [OF ar tok] .
      from soundD [OF sound_sum [OF Suc] ai1 q] obtain v t where
        ai2: "arithmetic_input ((t1, lx1), rest1)" and e0: "extends st st1" and
        hb: "holds st1 b v t" and tt: "sum_text v t"
        by blast
      have ar1: "arithmetic rest1" using ai2 by (simp add: arithmetic_input_def)
      have ai': "arithmetic_input inp'" using next_token_arithmetic [OF ar1 tok2] .
      have al: "alloc st1 (IntV v) (Some (''('' @ t @ '')'')) None = (a, st')"
        using n brackets_holds [OF hb] by simp
      have "holds st' a v (''('' @ t @ '')'')" and e1: "extends st1 st'"
        using alloc_holds [OF al] by auto
      moreover have "extends st st'" using e0 e1 extends_trans by blast
      ultimately show ?thesis using ai' atom_text_brackets [OF tt] by blast
    qed
  qed
qed

lemma parse_arithmetic:
  assumes ar: "arithmetic s" and p: "parse st s = Inr (r, st')"
  shows "sum_text (pr_value r) (pr_string r)"
proof -
  obtain a where ps: "p_start (fuel s) st s = Inr (a, st')" and
    pub: "to_public_result (obj st' a) = Inr r"
    using p by (auto simp: parse_def and_then_Inr)
  obtain tk lx rest where tok: "next_token first_dice s = Inr ((tk, lx), rest)"
    using ps by (auto simp: p_start_def and_then_Inr)
  have ai: "arithmetic_input ((tk, lx), rest)" using next_token_arithmetic [OF ar tok] .
  then have "tk \<noteq> NAME" by (auto simp: arithmetic_input_def)
  then obtain inp' where q: "p_sum (p_atom (fuel s)) (fuel s) st ((tk, lx), rest) = Inr (a, inp', st')"
    using ps tok by (auto simp: p_start_def and_then_Inr split: if_splits)
  from soundD [OF sound_sum [OF sound_atom] ai q] obtain v t where
    h: "holds st' a v t" and tt: "sum_text v t"
    by blast
  have "r = \<lparr>pr_value = v, pr_string = t\<rparr>"
    using pub h by (auto simp: to_public_result_def holds_def)
  then show ?thesis using tt by simp
qed

lemma sum_text_parse:
  assumes "sum_text v t"
  shows "\<exists>st'. parse st t = Inr (\<lparr>pr_value = v, pr_string = t\<rparr>, st')"
proof -
  have f: "follows stop_sum [] ((END, []), [])"
    by (simp add: follows_def next_token_def stop_sum_def after_atom_def)
  have "length t \<le> fuel t \<and> length t < fuel t"
    by (simp add: fuel_def)
  then have "reads (p_sum (p_atom (fuel t)) (fuel t)) stop_sum v t"
    using assms unfolding sum_text_def by blast
  with f obtain inp0 a st' where
    tok: "next_token first_dice (t @ []) = Inr inp0" and
    k: "fst (fst inp0) \<in> set [NUMBER, MINUS, LPAR]" and
    q: "p_sum (p_atom (fuel t)) (fuel t) st inp0 = Inr (a, ((END, []), []), st')" and
    h: "holds st' a v t"
    unfolding reads_def by blast
  have "p_start (fuel t) st t = Inr (a, st')"
    using tok k q by (cases inp0) (auto simp: p_start_def and_then_def)
  moreover have "to_public_result (obj st' a) = Inr \<lparr>pr_value = v, pr_string = t\<rparr>"
    using h by (simp add: to_public_result_def holds_def)
  ultimately show ?thesis by (simp add: parse_def and_then_def)
qed

text \<open>
  C9. When \<open>parse\<close> returns on an input made of numbers, operators, brackets and blanks
  only, parsing the string it returned gives the same value and the same string again,
  on any parser; \<open>(1 + 2) * 3\<close> evaluates to 9 with itself as its text.
\<close>

theorem text_reparses:
  "(\<forall>s r st' st2. arithmetic s \<and> parse st s = Inr (r, st') \<longrightarrow>
      (\<exists>st''. parse st2 (pr_string r) = Inr (r, st''))) \<and>
   value_of (parse st ''(1 + 2) * 3'') = Inr \<lparr>pr_value = 9, pr_string = ''(1 + 2) * 3''\<rparr>"
proof -
  have 1: "\<exists>st''. parse st2 (pr_string r) = Inr (r, st'')"
    if "arithmetic s" "parse st s = Inr (r, st')" for s r st' st2
    using sum_text_parse [OF parse_arithmetic [OF that], of st2] by (cases r) simp
  have 2: "value_of (parse st ''(1 + 2) * 3'') =
      Inr \<lparr>pr_value = 9, pr_string = ''(1 + 2) * 3''\<rparr>"
    by (simp add: run)
  from 1 2 show ?thesis by blast
qed

theorem text_reparses_witness:
  "arithmetic ''( 1+2 )*03'' \<and>
   value_of (parse new_parser ''( 1+2 )*03'') =
     Inr \<lparr>pr_value = 9, pr_string = ''(1 + 2) * 3''\<rparr> \<and>
   (\<exists>st''. parse new_parser ''(1 + 2) * 3'' =
      Inr (\<lparr>pr_value = 9, pr_string = ''(1 + 2) * 3''\<rparr>, st''))"
proof -
  have a: "arithmetic ''( 1+2 )*03''"
    by (simp add: arithmetic_def arithmetic_char_def is_digit_def is_ws_def)
  obtain st' where p: "parse new_parser ''( 1+2 )*03'' =
      Inr (\<lparr>pr_value = 9, pr_string = ''(1 + 2) * 3''\<rparr>, st')"
    by (simp add: run new_parser_def init_state_def)
  have "\<exists>st''. parse new_parser (pr_string \<lparr>pr_value = 9, pr_string = ''(1 + 2) * 3''\<rparr>) =
      Inr (\<lparr>pr_value = 9, pr_string = ''(1 + 2) * 3''\<rparr>, st'')"
    using text_reparses [of new_parser, THEN conjunct1, rule_format,
        of "''( 1+2 )*03''" "\<lparr>pr_value = 9, pr_string = ''(1 + 2) * 3''\<rparr>" st' new_parser]
      a p by blast
  then show ?thesis
    using a p by (simp add: value_of_def)
qed

section \<open>The recursion bound\<close>

lemma boundedD: "bounded B p \<Longrightarrow> length (snd inp) < B \<Longrightarrow> fine inp (p st inp)"
  unfolding bounded_def by blast

lemma next_token_length:
  assumes "next_token acc s = Inr ((t, lx), rest)"
  shows "t \<in> set acc \<and> length rest \<le> length s \<and> (t \<noteq> END \<longrightarrow> length rest < length s)"
proof (cases "dropWhile is_ws s")
  case Nil
  have "(if END \<in> set acc then Inr ((END, []), []) else Inl SyntaxError) = Inr ((t, lx), rest)"
    using assms unfolding next_token_def Nil by simp
  then show ?thesis by (auto split: if_splits)
next
  case (Cons c cs)
  have len: "length (c # cs) \<le> length s"
    using length_dropWhile_le [of is_ws s] Cons by simp
  have d: "length (dropWhile P cs) \<le> length cs" for P :: "char \<Rightarrow> bool"
    by (rule length_dropWhile_le)
  have k: "keyword acc w \<noteq> END \<and> (NAME \<in> set acc \<longrightarrow> keyword acc w \<in> set acc)" for w
    by (simp add: keyword_def)
  show ?thesis
    using assms len d [of is_digit] d [of is_name_char] k
    unfolding next_token_def Cons
    by (auto split: if_splits option.splits)
qed

lemma next_token_fuel: "next_token acc s \<noteq> Inl OutOfFuel"
  by (auto simp: next_token_def split: list.splits option.splits)

lemma action_fuel:
  "number st lx \<noteq> Inl OutOfFuel"
  "var st lx \<noteq> Inl OutOfFuel"
  "neg st a \<noteq> Inl OutOfFuel"
  "brackets st a \<noteq> Inl OutOfFuel"
  "dice_count st a \<noteq> Inl OutOfFuel"
  "dice_size st a \<noteq> Inl OutOfFuel"
  "dice_highest st a \<noteq> Inl OutOfFuel"
  "dice_lowest st a \<noteq> Inl OutOfFuel"
  "add st a b \<noteq> Inl OutOfFuel"
  "sub st a b \<noteq> Inl OutOfFuel"
  "mul st a b \<noteq> Inl OutOfFuel"
  "div_action st a b \<noteq> Inl OutOfFuel"
  "assign_var st lx a \<noteq> Inl OutOfFuel"
  by (auto simp: number_def py_int_def py_str_def var_def neg_def unary_def binary_def
      brackets_def dice_count_def dice_size_def dice_highest_def dice_lowest_def add_def
      sub_def mul_def div_action_def floordiv_def assign_var_def Let_def
      split: option.splits pyvalue.splits sum.splits prod.splits if_splits)

lemma roll_scan_fuel: "roll_scan st args acc \<noteq> Inl OutOfFuel"
  by (induction args arbitrary: acc) (auto split: pyvalue.splits sum.splits if_splits)

lemma roll_fuel: "roll st args \<noteq> Inl OutOfFuel"
  using roll_scan_fuel [of st args]
  by (auto simp: roll_def str_each_eq split: sum.splits prod.splits if_splits)

lemma and_then_Inl:
  "and_then r k = Inl e \<longleftrightarrow> r = Inl e \<or> (\<exists>x. r = Inr x \<and> k x = Inl e)"
  by (cases r) (simp_all add: and_then_def)

lemma fine_return:
  "length (snd inp') \<le> length (snd inp) \<Longrightarrow> fine inp (Inr (a, inp', st))"
  by (auto simp: fine_def)

lemma fine_error: "e \<noteq> OutOfFuel \<Longrightarrow> fine inp (Inl e)"
  by (simp add: fine_def)

lemma fine_mono:
  "fine inp1 r \<Longrightarrow> length (snd inp1) \<le> length (snd inp) \<Longrightarrow> fine inp r"
  by (auto simp: fine_def)


lemma bounded_fuel:
  "bounded B p \<Longrightarrow> length rest < B \<Longrightarrow> p st (tok, rest) \<noteq> Inl OutOfFuel"
  using boundedD [of B p "(tok, rest)" st] by (simp add: fine_def)

lemma bounded_length:
  "bounded B p \<Longrightarrow> length rest < B \<Longrightarrow> p st (tok, rest) = Inr (a, (tok', rest'), st') \<Longrightarrow>
   length rest' \<le> length rest"
  using boundedD [of B p "(tok, rest)" st] by (simp add: fine_def)

lemma fineI:
  assumes "r \<noteq> Inl OutOfFuel"
    and "\<And>a tok' rest' st'. r = Inr (a, (tok', rest'), st') \<Longrightarrow> length rest' \<le> length rest"
  shows "fine (tok, rest) r"
  using assms by (auto simp: fine_def)

lemma fine_fuel: "fine inp r \<Longrightarrow> r \<noteq> Inl OutOfFuel"
  by (simp add: fine_def)

lemma fine_length: "fine (tok, rest) r \<Longrightarrow> r = Inr (a, (tok', rest'), st') \<Longrightarrow> length rest' \<le> length rest"
  by (simp add: fine_def)

lemma p_modifier_fine:
  assumes b: "bounded B atom" and l: "length rest < B"
  shows "fine (tok, rest) (p_modifier atom st args (tok, rest))"
proof (rule fineI)
  show "p_modifier atom st args (tok, rest) \<noteq> Inl OutOfFuel"
    using l
    by (cases tok)
      (auto simp: p_modifier_def and_then_Inl next_token_fuel action_fuel roll_fuel
        bounded_fuel [OF b] split: if_splits dest!: next_token_length)
next
  fix a tok' rest' st'
  assume "p_modifier atom st args (tok, rest) = Inr (a, (tok', rest'), st')"
  then show "length rest' \<le> length rest"
    using l
    by (cases tok)
      (auto simp: p_modifier_def and_then_Inr split: if_splits
        dest!: next_token_length dest: bounded_length [OF b, rotated])
qed


lemma p_roll_fine:
  assumes b: "bounded B atom" and l: "length rest < B"
  shows "fine (tok, rest) (p_roll atom st args (tok, rest))"
proof (rule fineI)
  have m: "length r1 \<le> length rest \<Longrightarrow> p_modifier atom s1 as (t1, r1) \<noteq> Inl OutOfFuel"
    for r1 s1 as t1
    using p_modifier_fine [OF b, of r1 t1 s1 as] l by (simp add: fine_def)
  show "p_roll atom st args (tok, rest) \<noteq> Inl OutOfFuel"
    using l m [of rest]
    by (cases tok)
      (auto simp: p_roll_def and_then_Inl action_fuel bounded_fuel [OF b]
        split: if_splits dest!: bounded_length [OF b, rotated] intro!: m)
next
  fix a tok' rest' st'
  have m: "length r1 \<le> length rest \<Longrightarrow> p_modifier atom s1 as (t1, r1) = Inr (a, (tok', rest'), st')
       \<Longrightarrow> length rest' \<le> length r1"
    for r1 s1 as t1
    using p_modifier_fine [OF b, of r1 t1 s1 as] l by (simp add: fine_def)
  assume "p_roll atom st args (tok, rest) = Inr (a, (tok', rest'), st')"
  then show "length rest' \<le> length rest"
    using l m [of rest]
    by (cases tok)
      (auto simp: p_roll_def and_then_Inr split: if_splits
        dest!: bounded_length [OF b, rotated] dest: m [rotated])
qed

lemma p_dice_tail_fine:
  assumes b: "bounded B atom" and l: "length rest < B"
  shows "fine (tok, rest) (p_dice_tail atom st a (tok, rest))"
proof (rule fineI)
  have m: "length r1 \<le> length rest \<Longrightarrow> p_roll atom s1 as (t1, r1) \<noteq> Inl OutOfFuel"
    for r1 s1 as t1
    using p_roll_fine [OF b, of r1 t1 s1 as] l by (simp add: fine_def)
  show "p_dice_tail atom st a (tok, rest) \<noteq> Inl OutOfFuel"
    using l
    by (cases tok)
      (auto simp: p_dice_tail_def and_then_Inl action_fuel next_token_fuel
        split: if_splits dest!: next_token_length intro!: m)
next
  fix b' tok' rest' st'
  have m: "length r1 \<le> length rest \<Longrightarrow> p_roll atom s1 as (t1, r1) = Inr (b', (tok', rest'), st')
       \<Longrightarrow> length rest' \<le> length r1"
    for r1 s1 as t1
    using p_roll_fine [OF b, of r1 t1 s1 as] l by (simp add: fine_def)
  assume "p_dice_tail atom st a (tok, rest) = Inr (b', (tok', rest'), st')"
  then show "length rest' \<le> length rest"
    using l
    by (cases tok)
      (auto simp: p_dice_tail_def and_then_Inr split: if_splits
        dest!: next_token_length dest: m [rotated])
qed

lemma p_dice_bounded:
  assumes b: "bounded B atom"
  shows "bounded B (p_dice atom)"
  unfolding bounded_def
proof (intro allI impI)
  fix st and inp :: input
  assume l0: "length (snd inp) < B"
  obtain tok rest where inp: "inp = (tok, rest)" by (cases inp)
  from l0 have l: "length rest < B" by (simp add: inp)
  have "fine (tok, rest) (p_dice atom st (tok, rest))"
  proof (rule fineI)
    have m: "length r1 \<le> length rest \<Longrightarrow> p_roll atom s1 as (t1, r1) \<noteq> Inl OutOfFuel"
      for r1 s1 as t1
      using p_roll_fine [OF b, of r1 t1 s1 as] l by (simp add: fine_def)
    have n: "length r1 \<le> length rest \<Longrightarrow> p_dice_tail atom s1 a1 (t1, r1) \<noteq> Inl OutOfFuel"
      for r1 s1 a1 t1
      using p_dice_tail_fine [OF b, of r1 t1 s1 a1] l by (simp add: fine_def)
    show "p_dice atom st (tok, rest) \<noteq> Inl OutOfFuel"
      using l
      by (cases tok)
        (auto simp: p_dice_def and_then_Inl next_token_fuel bounded_fuel [OF b]
          split: if_splits dest!: next_token_length bounded_length [OF b, rotated]
          intro!: m n)
  next
    fix a tok' rest' st'
    have m: "length r1 \<le> length rest \<Longrightarrow> p_roll atom s1 as (t1, r1) = Inr (a, (tok', rest'), st')
         \<Longrightarrow> length rest' \<le> length r1"
      for r1 s1 as t1
      using p_roll_fine [OF b, of r1 t1 s1 as] l by (simp add: fine_def)
    have n: "length r1 \<le> length rest \<Longrightarrow>
         p_dice_tail atom s1 a1 (t1, r1) = Inr (a, (tok', rest'), st')
         \<Longrightarrow> length rest' \<le> length r1"
      for r1 s1 a1 t1
      using p_dice_tail_fine [OF b, of r1 t1 s1 a1] l by (simp add: fine_def)
    assume "p_dice atom st (tok, rest) = Inr (a, (tok', rest'), st')"
    then show "length rest' \<le> length rest"
      using l
      by (cases tok)
        (auto simp: p_dice_def and_then_Inr split: if_splits
          dest!: next_token_length bounded_length [OF b, rotated] dest: m [rotated] n [rotated])
  qed
  then show "fine inp (p_dice atom st inp)" by (simp add: inp)
qed


lemma p_product_loop_fine:
  assumes b: "bounded B atom"
  shows "length rest < B \<Longrightarrow> length rest < f \<Longrightarrow>
         fine (tok, rest) (p_product_loop atom f st a (tok, rest))"
proof (induction f arbitrary: st a tok rest)
  case 0
  then show ?case by simp
next
  case (Suc f)
  obtain tk lx where tok: "tok = (tk, lx)" by (cases tok)
  show ?case
  proof (cases "tk = STAR \<or> tk = SLASH")
    case False
    then show ?thesis by (auto simp: tok fine_def)
  next
    case True
    show ?thesis
    proof (cases "next_token first_dice rest")
      case (Inl e)
      then show ?thesis
        using True next_token_fuel [of first_dice rest]
        by (auto simp: tok fine_def and_then_def)
    next
      case (Inr inp1)
      obtain t1 lx1 rest1 where inp1: "inp1 = ((t1, lx1), rest1)" by (metis surj_pair)
      from next_token_length [OF Inr [unfolded inp1]]
      have l1: "length rest1 < length rest" by (auto simp: first_dice_def)
      then have lb: "length rest1 < B" using Suc.prems by simp
      note d = boundedD [OF p_dice_bounded [OF b], of "((t1, lx1), rest1)" st, simplified, OF lb]
      show ?thesis
      proof (cases "p_dice atom st ((t1, lx1), rest1)")
        case (Inl e)
        then show ?thesis
          using True Inr d by (auto simp: tok inp1 fine_def and_then_def)
      next
        case r: (Inr x)
        obtain c tok2 rest2 st1 where x: "x = (c, (tok2, rest2), st1)" by (metis surj_pair)
        have l2: "length rest2 \<le> length rest1"
          using d r by (simp add: x fine_def)
        show ?thesis
        proof (cases "(if tk = STAR then mul else div_action) st1 a c")
          case (Inl e)
          then have "e \<noteq> OutOfFuel" using action_fuel(11,12) by (auto split: if_splits)
          then show ?thesis
            using True Inr r Inl by (auto simp: tok inp1 x fine_def and_then_def)
        next
          case m: (Inr y)
          obtain d2 st2 where y: "y = (d2, st2)" by (cases y)
          have "fine (tok2, rest2) (p_product_loop atom f st2 d2 (tok2, rest2))"
            using Suc.IH [where rest = rest2 and st = st2 and a = d2 and tok = tok2] Suc.prems l1 l2 by simp
          then have "fine (tok, rest) (p_product_loop atom f st2 d2 (tok2, rest2))"
            using l1 l2 by (auto simp: fine_def)
          then show ?thesis
            using True Inr r m by (auto simp: tok inp1 x y and_then_def)
        qed
      qed
    qed
  qed
qed

lemma p_product_fine:
  assumes b: "bounded B atom" and l: "length rest < B" "length rest < f"
  shows "fine (tok, rest) (p_product atom f st (tok, rest))"
proof -
  note d = boundedD [OF p_dice_bounded [OF b], of "(tok, rest)" st, simplified, OF l(1)]
  show ?thesis
  proof (cases "p_dice atom st (tok, rest)")
    case (Inl e)
    then show ?thesis using d by (auto simp: p_product_def fine_def and_then_def)
  next
    case (Inr x)
    obtain c tok2 rest2 st1 where x: "x = (c, (tok2, rest2), st1)" by (metis surj_pair)
    have l2: "length rest2 \<le> length rest"
      using d Inr by (simp add: x fine_def)
    have "fine (tok2, rest2) (p_product_loop atom f st1 c (tok2, rest2))"
      using p_product_loop_fine [OF b, of rest2 f tok2 st1 c] l l2 by simp
    then have "fine (tok, rest) (p_product_loop atom f st1 c (tok2, rest2))"
      using l2 by (auto simp: fine_def)
    then show ?thesis using Inr by (simp add: p_product_def x and_then_def)
  qed
qed

lemma p_sum_loop_fine:
  assumes b: "bounded B atom"
  shows "length rest < B \<Longrightarrow> length rest < f \<Longrightarrow>
         fine (tok, rest) (p_sum_loop atom f st a (tok, rest))"
proof (induction f arbitrary: st a tok rest)
  case 0
  then show ?case by simp
next
  case (Suc f)
  obtain tk lx where tok: "tok = (tk, lx)" by (cases tok)
  show ?case
  proof (cases "tk = PLUS \<or> tk = MINUS")
    case False
    then show ?thesis by (auto simp: tok fine_def)
  next
    case True
    show ?thesis
    proof (cases "next_token first_dice rest")
      case (Inl e)
      then show ?thesis
        using True next_token_fuel [of first_dice rest]
        by (auto simp: tok fine_def and_then_def)
    next
      case (Inr inp1)
      obtain t1 lx1 rest1 where inp1: "inp1 = ((t1, lx1), rest1)" by (metis surj_pair)
      from next_token_length [OF Inr [unfolded inp1]]
      have l1: "length rest1 < length rest" by (auto simp: first_dice_def)
      then have lb: "length rest1 < B" "length rest1 < f" using Suc.prems by simp_all
      note d = p_product_fine [OF b lb, of "(t1, lx1)" st]
      show ?thesis
      proof (cases "p_product atom f st ((t1, lx1), rest1)")
        case (Inl e)
        then show ?thesis
          using True Inr d by (auto simp: tok inp1 fine_def and_then_def)
      next
        case r: (Inr x)
        obtain c tok2 rest2 st1 where x: "x = (c, (tok2, rest2), st1)" by (metis surj_pair)
        have l2: "length rest2 \<le> length rest1"
          using d r by (simp add: x fine_def)
        show ?thesis
        proof (cases "(if tk = PLUS then add else sub) st1 a c")
          case (Inl e)
          then have "e \<noteq> OutOfFuel" using action_fuel(9,10) by (auto split: if_splits)
          then show ?thesis
            using True Inr r Inl by (auto simp: tok inp1 x fine_def and_then_def)
        next
          case m: (Inr y)
          obtain d2 st2 where y: "y = (d2, st2)" by (cases y)
          have "fine (tok2, rest2) (p_sum_loop atom f st2 d2 (tok2, rest2))"
            using Suc.IH [where rest = rest2 and st = st2 and a = d2 and tok = tok2] Suc.prems l1 l2 by simp
          then have "fine (tok, rest) (p_sum_loop atom f st2 d2 (tok2, rest2))"
            using l1 l2 by (auto simp: fine_def)
          then show ?thesis
            using True Inr r m by (auto simp: tok inp1 x y and_then_def)
        qed
      qed
    qed
  qed
qed

lemma p_sum_fine:
  assumes b: "bounded B atom" and l: "length rest < B" "length rest < f"
  shows "fine (tok, rest) (p_sum atom f st (tok, rest))"
proof -
  note d = p_product_fine [OF b l, of tok st]
  show ?thesis
  proof (cases "p_product atom f st (tok, rest)")
    case (Inl e)
    then show ?thesis using d by (auto simp: p_sum_def fine_def and_then_def)
  next
    case (Inr x)
    obtain c tok2 rest2 st1 where x: "x = (c, (tok2, rest2), st1)" by (metis surj_pair)
    have l2: "length rest2 \<le> length rest"
      using d Inr by (simp add: x fine_def)
    have "fine (tok2, rest2) (p_sum_loop atom f st1 c (tok2, rest2))"
      using p_sum_loop_fine [OF b, of rest2 f tok2 st1 c] l l2 by simp
    then have "fine (tok, rest) (p_sum_loop atom f st1 c (tok2, rest2))"
      using l2 by (auto simp: fine_def)
    then show ?thesis using Inr by (simp add: p_sum_def x and_then_def)
  qed
qed


lemma p_atom_bounded: "bounded F (p_atom F)"
proof (induction F)
  case 0
  then show ?case by (simp add: bounded_def)
next
  case (Suc F)
  show ?case
    unfolding bounded_def
  proof (intro allI impI)
    fix st and inp :: input
    assume l0: "length (snd inp) < Suc F"
    obtain tok rest where inp: "inp = (tok, rest)" by (cases inp)
    from l0 have l: "length rest \<le> F" by (simp add: inp)
    have "fine (tok, rest) (p_atom (Suc F) st (tok, rest))"
    proof (rule fineI)
      have m: "length r1 < length rest \<Longrightarrow> p_atom F s1 (t1, r1) \<noteq> Inl OutOfFuel"
        for r1 s1 t1
        using bounded_fuel [OF Suc, of r1 s1 t1] l by simp
      have n: "length r1 < length rest \<Longrightarrow> p_sum (p_atom F) F s1 (t1, r1) \<noteq> Inl OutOfFuel"
        for r1 s1 t1
        using p_sum_fine [OF Suc, of r1 F t1 s1] l by (simp add: fine_def)
      show "p_atom (Suc F) st (tok, rest) \<noteq> Inl OutOfFuel"
        by (cases tok)
          (auto simp: and_then_Inl next_token_fuel action_fuel first_atom_def first_dice_def
            split: if_splits dest!: next_token_length intro!: m n)
    next
      fix a tok' rest' st'
      have m: "length r1 < length rest \<Longrightarrow> p_atom F s1 (t1, r1) = Inr (b1, (t2, r2), s2)
           \<Longrightarrow> length r2 \<le> length r1"
        for r1 s1 t1 b1 t2 r2 s2
        using bounded_length [OF Suc, of r1 s1 t1] l by simp
      have n: "length r1 < length rest \<Longrightarrow>
           p_sum (p_atom F) F s1 (t1, r1) = Inr (b1, (t2, r2), s2)
           \<Longrightarrow> length r2 \<le> length r1"
        for r1 s1 t1 b1 t2 r2 s2
        using p_sum_fine [OF Suc, of r1 F t1 s1] l by (simp add: fine_def)
      assume "p_atom (Suc F) st (tok, rest) = Inr (a, (tok', rest'), st')"
      then show "length rest' \<le> length rest"
        by (cases tok)
          (auto simp: and_then_Inr first_atom_def first_dice_def split: if_splits
            dest!: next_token_length dest: m [rotated] n [rotated])
    qed
    then show "fine inp (p_atom (Suc F) st inp)" by (simp add: inp)
  qed
qed

lemma p_start_fuel: "p_start (Suc (length s)) st s \<noteq> Inl OutOfFuel"
proof -
  let ?f = "Suc (length s)"
  note b = p_atom_bounded [of ?f]
  have su: "length r1 \<le> length s \<Longrightarrow> fine (t1, r1) (p_sum (p_atom ?f) ?f s1 (t1, r1))"
    for r1 s1 t1
    using p_sum_fine [OF b, of r1 ?f t1 s1] by simp
  have dt: "length r1 \<le> length s \<Longrightarrow> fine (t1, r1) (p_dice_tail (p_atom ?f) s1 a1 (t1, r1))"
    for r1 s1 t1 a1
    using p_dice_tail_fine [OF b, of r1 t1 s1 a1] by simp
  have pl: "length r1 \<le> length s \<Longrightarrow>
      fine (t1, r1) (p_product_loop (p_atom ?f) ?f s1 a1 (t1, r1))"
    for r1 s1 t1 a1
    using p_product_loop_fine [OF b, of r1 ?f t1 s1 a1] by simp
  have sl: "length r1 \<le> length s \<Longrightarrow>
      fine (t1, r1) (p_sum_loop (p_atom ?f) ?f s1 a1 (t1, r1))"
    for r1 s1 t1 a1
    using p_sum_loop_fine [OF b, of r1 ?f t1 s1 a1] by simp
  show ?thesis
  proof (cases "next_token first_dice s")
    case (Inl e)
    then show ?thesis
      using next_token_fuel [of first_dice s] by (auto simp: p_start_def and_then_def)
  next
    case (Inr inp)
    obtain t lx rest where inp: "inp = ((t, lx), rest)" by (metis surj_pair)
    from next_token_length [OF Inr [unfolded inp]] have l: "length rest \<le> length s" by simp
    show ?thesis
    proof (cases "t = NAME")
      case False
      then show ?thesis
        using Inr su [OF l, of "(t, lx)" st]
        by (auto simp: p_start_def inp and_then_Inl fine_def split: if_splits)
    next
      case True
      show ?thesis
      proof (cases "next_token after_first_name rest")
        case (Inl e)
        then show ?thesis
          using \<open>t = NAME\<close> Inr next_token_fuel [of after_first_name rest]
          by (auto simp: p_start_def inp and_then_def)
      next
        case i2: (Inr inp2)
        obtain t2 lx2 rest2 where inp2: "inp2 = ((t2, lx2), rest2)" by (metis surj_pair)
        from next_token_length [OF i2 [unfolded inp2]] l
        have l2: "length rest2 \<le> length s" by simp
        show ?thesis
        proof (cases "t2 = EQUAL")
          case True
          have "and_then (next_token first_dice rest2) (\<lambda>inp.
                  and_then (p_sum (p_atom ?f) ?f st inp) (\<lambda>(a, ((t3, lexeme3), rest3), st1).
                  if t3 = END then assign_var st1 lx a else Inl SyntaxError)) \<noteq> Inl OutOfFuel"
          proof (cases "next_token first_dice rest2")
            case (Inl e)
            then show ?thesis
              using next_token_fuel [of first_dice rest2] by (auto simp: and_then_def)
          next
            case i3: (Inr inp3)
            obtain t3 lx3 rest3 where inp3: "inp3 = ((t3, lx3), rest3)" by (metis surj_pair)
            from next_token_length [OF i3 [unfolded inp3]] l2
            have l3: "length rest3 \<le> length s" by simp
            show ?thesis
              using i3 su [OF l3, of "(t3, lx3)" st] action_fuel(13)
              by (auto simp: inp3 and_then_Inl fine_def split: if_splits)
          qed
          then show ?thesis
            using \<open>t = NAME\<close> True Inr i2 by (simp add: p_start_def inp inp2 and_then_def)
        next
          case False
          have "and_then (var st lx) (\<lambda>(a, st1).
                 and_then (p_dice_tail (p_atom ?f) st1 a ((t2, lx2), rest2)) (\<lambda>(b, inp1, st2).
                 and_then (p_product_loop (p_atom ?f) ?f st2 b inp1) (\<lambda>(c, inp2, st3).
                 and_then (p_sum_loop (p_atom ?f) ?f st3 c inp2) (\<lambda>(d, ((t3, lexeme3), rest3), st4).
                 if t3 = END then Inr (d, st4) else Inl SyntaxError)))) \<noteq> Inl OutOfFuel"
          proof (cases "var st lx")
            case (Inl e)
            then show ?thesis using action_fuel(2) [of st lx] by (auto simp: and_then_def)
          next
            case v: (Inr x)
            obtain a st1 where x: "x = (a, st1)" by (cases x)
            note f1 = dt [OF l2, of "(t2, lx2)" st1 a]
            show ?thesis
            proof (cases "p_dice_tail (p_atom ?f) st1 a ((t2, lx2), rest2)")
              case (Inl e)
              then show ?thesis using v f1 by (auto simp: x and_then_def fine_def)
            next
              case d: (Inr y)
              obtain b tk3 rest3 st2 where y: "y = (b, (tk3, rest3), st2)" by (metis surj_pair)
              have l3: "length rest3 \<le> length s"
                using f1 d l2 by (auto simp: y fine_def)
              note f2 = pl [OF l3, of tk3 st2 b]
              show ?thesis
              proof (cases "p_product_loop (p_atom ?f) ?f st2 b (tk3, rest3)")
                case (Inl e)
                then show ?thesis using v d f2 by (auto simp: x y and_then_def fine_def)
              next
                case p: (Inr z)
                obtain c tk4 rest4 st3 where z: "z = (c, (tk4, rest4), st3)" by (metis surj_pair)
                have l4: "length rest4 \<le> length s"
                  using f2 p l3 by (auto simp: z fine_def)
                note f3 = sl [OF l4, of tk4 st3 c]
                show ?thesis
                  using v d p f3
                  by (auto simp: x y z and_then_Inl fine_def split: if_splits
                      simp del: p_product_loop.simps p_sum_loop.simps)
              qed
            qed
          qed
          then show ?thesis
            using \<open>t = NAME\<close> False Inr i2 by (simp add: p_start_def inp inp2 and_then_def)
        qed
      qed
    qed
  qed
qed

text \<open>
  The recursion bound of \<open>parse\<close> is never used up: \<open>OutOfFuel\<close> is not a result of
  \<open>parse\<close>, on any input and in any state.
\<close>

theorem parse_never_out_of_fuel: "parse st s \<noteq> Inl OutOfFuel"
  using p_start_fuel [of s st]
  by (auto simp: parse_def fuel_def and_then_Inl to_public_result_def
      split: pyvalue.splits option.splits simp del: p_atom.simps)

section \<open>Division\<close>

lemma atom_text_int:
  assumes "printable i"
  shows "atom_text i (str_int i)"
proof (cases "i < 0")
  case True
  then have "length (str_nat (nat (- i))) \<le> max_str_digits"
    using assms by (simp add: printable_def abs_if)
  then have "atom_text (- int (nat (- i))) (CHR ''-'' # str_nat (nat (- i)))"
    by (intro atom_text_neg atom_text_number)
  then show ?thesis using True by (simp add: str_int_def)
next
  case False
  then have "length (str_nat (nat i)) \<le> max_str_digits"
    using assms by (simp add: printable_def abs_if)
  then have "atom_text (int (nat i)) (str_nat (nat i))"
    by (rule atom_text_number)
  then show ?thesis using False by (simp add: str_int_def)
qed

lemma parse_division:
  assumes "b \<noteq> 0" and pa: "printable a" and pb: "printable b"
  shows "value_of (parse st (str_int a @ '' / '' @ str_int b)) =
     Inr \<lparr>pr_value = a div b, pr_string = str_int a @ '' / '' @ str_int b\<rparr>"
proof -
  have "product_rest a (a div b) (CHR '' '' # CHR ''/'' # CHR '' '' # str_int b @ [])"
    using product_rest_step [OF _ atom_text_int [OF pb] product_rest_nil,
        of "CHR ''/''" "a div b" a] assms(1)
    by simp
  then have "product_text (a div b) (str_int a @ '' / '' @ str_int b)"
    using product_text_intro [OF atom_text_int [OF pa]] by fastforce
  then have "sum_text (a div b) ((str_int a @ '' / '' @ str_int b) @ [])"
    by (rule sum_text_intro [OF _ sum_rest_nil])
  then have "sum_text (a div b) (str_int a @ '' / '' @ str_int b)"
    by simp
  from sum_text_parse [OF this, of st] show ?thesis
    by (auto simp: value_of_def)
qed

lemma parse_long_dividend:
  assumes n: "digits n" and l: "max_str_digits < length n"
  shows "value_of (parse st (n @ '' / 2'')) = Inl ValueError"
  by (simp add: roll_run next_token_number [OF n] next_token_symbol number_long [OF l])

text \<open>
  C2. Division is floor division: \<open>floordiv\<close> returns the floor of the quotient (and
  raises on a zero divisor), the \<open>div\<close> action stores that value, and for all integers
  \<open>a\<close> and \<open>b \<noteq> 0\<close> whose texts are within the limit of \<open>int\<close> and \<open>str\<close>, written as
  Python writes them, the parse of \<open>a / b\<close> has the floor of the quotient as its value;
  on every parser \<open>7 / 2\<close> evaluates to 3 and \<open>-7 / 2\<close> to -4, and \<open>7 / 0\<close> raises. A
  dividend written with more digits than the limit raises \<open>ValueError\<close>.
\<close>

theorem div_is_floor_division:
  "(\<forall>a b. floordiv a b =
      (if b = 0 then Inl ZeroDivisionError else Inr \<lfloor>real_of_int a / real_of_int b\<rfloor>)) \<and>
   (\<forall>x y a b. r_value (obj st x) = IntV a \<and> r_value (obj st y) = IntV b \<and> b \<noteq> 0 \<longrightarrow>
      (\<exists>z st'. div_action st x y = Inr (z, st') \<and>
         r_value (obj st' z) = IntV \<lfloor>real_of_int a / real_of_int b\<rfloor>)) \<and>
   (\<forall>a b. b \<noteq> 0 \<and> printable a \<and> printable b \<longrightarrow>
      value_of (parse st (str_int a @ '' / '' @ str_int b)) =
        Inr \<lparr>pr_value = \<lfloor>real_of_int a / real_of_int b\<rfloor>,
             pr_string = str_int a @ '' / '' @ str_int b\<rparr>) \<and>
   value_of (parse st ''7 / 2'') = Inr \<lparr>pr_value = 3, pr_string = ''7 / 2''\<rparr> \<and>
   value_of (parse st ''-7 / 2'') = Inr \<lparr>pr_value = - 4, pr_string = ''-7 / 2''\<rparr> \<and>
   value_of (parse st ''7 / 0'') = Inl ZeroDivisionError \<and>
   (\<forall>n. digits n \<and> max_str_digits < length n \<longrightarrow>
      value_of (parse st (n @ '' / 2'')) = Inl ValueError)"
proof -
  have 1: "\<forall>a b. floordiv a b =
      (if b = 0 then Inl ZeroDivisionError else Inr \<lfloor>real_of_int a / real_of_int b\<rfloor>)"
    by (simp add: floordiv_def floor_divide_of_int_eq)
  have 2: "\<forall>x y a b. r_value (obj st x) = IntV a \<and> r_value (obj st y) = IntV b \<and> b \<noteq> 0 \<longrightarrow>
      (\<exists>z st'. div_action st x y = Inr (z, st') \<and>
         r_value (obj st' z) = IntV \<lfloor>real_of_int a / real_of_int b\<rfloor>)"
    by (simp add: div_action_def binary_def floordiv_def alloc_def obj_def
        floor_divide_of_int_eq)
  have 3: "\<forall>a b. b \<noteq> 0 \<and> printable a \<and> printable b \<longrightarrow>
      value_of (parse st (str_int a @ '' / '' @ str_int b)) =
        Inr \<lparr>pr_value = \<lfloor>real_of_int a / real_of_int b\<rfloor>,
             pr_string = str_int a @ '' / '' @ str_int b\<rparr>"
    using parse_division by (simp add: floor_divide_of_int_eq)
  have 4: "value_of (parse st ''7 / 2'') = Inr \<lparr>pr_value = 3, pr_string = ''7 / 2''\<rparr>"
    by (simp add: run)
  have 5: "value_of (parse st ''-7 / 2'') = Inr \<lparr>pr_value = - 4, pr_string = ''-7 / 2''\<rparr>"
    by (simp add: run)
  have 6: "value_of (parse st ''7 / 0'') = Inl ZeroDivisionError"
    by (simp add: run)
  have 7: "\<forall>n. digits n \<and> max_str_digits < length n \<longrightarrow>
      value_of (parse st (n @ '' / 2'')) = Inl ValueError"
    using parse_long_dividend by blast
  from 1 2 3 4 5 6 7 show ?thesis by blast
qed

theorem div_is_floor_division_witness:
  "(\<exists>z st'. div_action
       \<lparr>heap = [\<lparr>r_value = IntV (- 7), r_string = Some ''-7'', r_flag = None\<rparr>,
                \<lparr>r_value = IntV 2, r_string = Some ''2'', r_flag = None\<rparr>],
        vars = (\<lambda>n. None), entropy = (\<lambda>i. 0), drawn = 0\<rparr> 0 1 = Inr (z, st') \<and>
     r_value (obj st' z) = IntV (- 4)) \<and>
   printable (- 7) \<and> printable 2 \<and>
   value_of (parse new_parser (str_int (- 7) @ '' / '' @ str_int 2)) =
     Inr \<lparr>pr_value = - 4, pr_string = ''-7 / 2''\<rparr> \<and>
   digits (replicate 4301 (CHR ''1'')) \<and>
   max_str_digits < length (replicate 4301 (CHR ''1'')) \<and>
   value_of (parse new_parser (replicate 4301 (CHR ''1'') @ '' / 2'')) = Inl ValueError"
proof -
  let ?st = "\<lparr>heap = [\<lparr>r_value = IntV (- 7), r_string = Some ''-7'', r_flag = None\<rparr>,
                  \<lparr>r_value = IntV 2, r_string = Some ''2'', r_flag = None\<rparr>],
          vars = (\<lambda>n. None), entropy = (\<lambda>i. 0), drawn = 0\<rparr>"
  have p: "printable (- 7) \<and> printable 2"
    by (simp add: printable_def max_str_digits_def str_nat.simps)
  have d: "digits (replicate 4301 (CHR ''1'')) \<and>
      max_str_digits < length (replicate 4301 (CHR ''1''))"
    by (simp add: digits_def is_digit_def max_str_digits_def)
  have "\<exists>z st'. div_action ?st 0 1 = Inr (z, st') \<and> r_value (obj st' z) = IntV (- 4)"
    using div_is_floor_division
      [of ?st, THEN conjunct2, THEN conjunct1, rule_format, of 0 "- 7" 1 2]
    by (simp add: obj_def)
  moreover have "value_of (parse new_parser (str_int (- 7) @ '' / '' @ str_int 2)) =
     Inr \<lparr>pr_value = - 4, pr_string = ''-7 / 2''\<rparr>"
    using div_is_floor_division
      [of new_parser, THEN conjunct2, THEN conjunct2, THEN conjunct1, rule_format, of 2 "- 7"] p
    by (simp add: str_int_def str_nat.simps digit_char_def)
  moreover have
    "value_of (parse new_parser (replicate 4301 (CHR ''1'') @ '' / 2'')) = Inl ValueError"
    using div_is_floor_division
      [of new_parser, THEN conjunct2, THEN conjunct2, THEN conjunct2, THEN conjunct2,
        THEN conjunct2, THEN conjunct2, rule_format, of "replicate 4301 (CHR ''1'')"] d
    by blast
  ultimately show ?thesis using p d by blast
qed

end
